theory Spec2Isabelle
  imports Complex_Main "HOL-Library.Multiset"
begin

section \<open>Data model\<close>

text \<open>
  The values a property of a document can hold. A missing property reads as
  \<open>JUndefined\<close>. Numbers are the finite numbers of the index data; the difference of
  two of them has the sign of their exact difference, which is all the sort reads.
\<close>

datatype jsval = JUndefined | JNull | JNum real | JStr string | JArr "string list"

text \<open>
  A stored document: its \<open>id\<close>, its \<open>type\<close> (a list of URIs) and its other
  properties, in the order the object lists them.
\<close>

record doc =
  doc_id :: string
  doc_type :: "string list"
  props :: "(string \<times> jsval) list"

text \<open>The property read \<open>a[key]\<close>.\<close>

definition get_field :: "doc \<Rightarrow> string \<Rightarrow> jsval" where
  "get_field d k =
     (if k = ''id'' then JStr (doc_id d)
      else if k = ''type'' then JArr (doc_type d)
      else (case map_of (props d) k of None \<Rightarrow> JUndefined | Some v \<Rightarrow> v))"

text \<open>One enriched hit \<open>{id, doc}\<close> of the index, and one group of hits \<open>{field, result}\<close>.\<close>

record hit =
  item_id :: string
  item_doc :: doc

record hit_group =
  label :: string
  result :: "hit list"

text \<open>The options object given to the search of the index.\<close>

record search_options =
  index_fields :: "string list"
  enrich :: bool
  tag :: "string list"

text \<open>
  The document index is the search library's. Of it the code uses the object
  \<open>index.store\<close>, which holds each document under its id, and the function
  \<open>search\<close>, taken here as it comes. \<open>store\<close> lists the properties of the object in
  the order they were created, that is, the order the documents were added in.
\<close>

record flex_index =
  store :: "(string \<times> doc) list"
  search_fn :: "string \<Rightarrow> search_options \<Rightarrow> hit_group list"

record sort_sel =
  skey :: string
  sorder :: string

text \<open>
  The state \<open>db\<close>. The field \<open>index\<close> is \<open>{}\<close> until the index has been created:
  that is \<open>None\<close>. \<open>selection\<close> holds the members of \<open>db\<close> that carry a list of
  selected ids (\<open>selectedVocabs\<close>), by name: \<open>selection db k\<close> is \<open>db[k]\<close> for
  every name \<open>k\<close> but those of the other members, which have fields of their own.
\<close>

record db_state =
  resultsPerPage :: int
  activePage :: int
  query :: string
  results :: "doc list"
  filters :: "(string \<times> string list) list"
  index :: "flex_index option"
  sort_state :: sort_sel
  initizialized :: bool
  filterKeys :: "string list"
  selectedFilters :: "(string \<times> string list) list"
  selection :: "string \<rightharpoonup> string list"

text \<open>The names of the members that are not lists of selected ids.\<close>

definition member_names :: "string list" where
  "member_names =
     [''resultsPerPage'', ''activePage'', ''query'', ''results'', ''filters'', ''index'', ''sort'',
      ''initizialized'', ''initialized'', ''filterKeys'', ''selectedFilters'']"

datatype error = TypeError

text \<open>
  A call either returns or throws; in both cases it leaves a state behind, since an
  update made before the throw stays.
\<close>

datatype 's outcome = Returned (state_of: 's) | Threw error (state_of: 's)

section \<open>Configuration\<close>

definition config_filterKeys :: "string list" where
  "config_filterKeys = [''about'', ''educationalLevel'', ''P126'']"

definition marker :: string where
  "marker = ''http://www.wikidata.org/entity/Q1469824''"

section \<open>Pagination\<close>

text \<open>\<open>Array.prototype.slice(start, end)\<close> on integers: a negative bound counts from the end.\<close>

definition js_slice :: "'a list \<Rightarrow> int \<Rightarrow> int \<Rightarrow> 'a list" where
  "js_slice xs start fin =
     (let len = int (length xs);
          k = (if start < 0 then max (len + start) 0 else min start len);
          final = (if fin < 0 then max (len + fin) 0 else min fin len)
      in take (nat (final - k)) (drop (nat k) xs))"

definition paginatedResults :: "db_state \<Rightarrow> doc list" where
  "paginatedResults db =
     (let startIndex = activePage db * resultsPerPage db;
          endIndex = startIndex + resultsPerPage db
      in js_slice (results db) startIndex endIndex)"

definition updatePagination :: "int \<Rightarrow> db_state \<Rightarrow> db_state" where
  "updatePagination direction db = db\<lparr>activePage := activePage db + direction\<rparr>"

section \<open>Filters, results and search\<close>

definition initFilters :: "(string \<times> string list) list" where
  "initFilters = map (\<lambda>e. (e, [])) config_filterKeys"

definition updateResults :: "doc list \<Rightarrow> db_state \<Rightarrow> db_state" where
  "updateResults rs db = db\<lparr>results := rs, activePage := 0\<rparr>"

text \<open>
  The order in which an object lists its own properties: first the keys that are array
  indices (decimal numerals without a leading zero, below 4294967295) in ascending
  numeric order, then the other keys in the order of their creation.
  \<open>Object.values\<close> gives the values in this order.
\<close>

definition is_digit :: "char \<Rightarrow> bool" where
  "is_digit c = (48 \<le> (of_char c :: int) \<and> (of_char c :: int) \<le> 57)"

definition index_value :: "string \<Rightarrow> int" where
  "index_value s = foldl (\<lambda>n c. 10 * n + ((of_char c :: int) - 48)) 0 s"

definition is_array_index :: "string \<Rightarrow> bool" where
  "is_array_index s =
     (s \<noteq> [] \<and> list_all is_digit s \<and> (s = ''0'' \<or> hd s \<noteq> CHR ''0'') \<and>
      index_value s < 4294967295)"

definition Object_values :: "(string \<times> 'v) list \<Rightarrow> 'v list" where
  "Object_values obj =
     map snd (sort_key (\<lambda>e. index_value (fst e)) (filter (\<lambda>e. is_array_index (fst e)) obj)) @
     map snd (filter (\<lambda>e. \<not> is_array_index (fst e)) obj)"

text \<open>\<open>Object.values(undefined)\<close> throws: the index has no store before it is created.\<close>

definition fillResults :: "db_state \<Rightarrow> db_state outcome" where
  "fillResults db =
     (case index db of
        None \<Rightarrow> Threw TypeError db
      | Some ix \<Rightarrow>
          Returned (updateResults (filter (\<lambda>e. marker \<in> set (doc_type e)) (Object_values (store ix))) db))"

definition resetFilters :: "db_state \<Rightarrow> db_state outcome" where
  "resetFilters db =
     fillResults (db\<lparr>query := '''',
                     sort_state := \<lparr>skey = '''', sorder = ''asc''\<rparr>,
                     selectedFilters := initFilters\<rparr>)"

text \<open>
  \<open>Map.prototype.set\<close> on the entries of a map, kept in insertion order: an existing key
  keeps its place and takes the new value, a new key goes to the end.
\<close>

fun map_set :: "('k \<times> 'v) list \<Rightarrow> 'k \<Rightarrow> 'v \<Rightarrow> ('k \<times> 'v) list" where
  "map_set [] k v = [(k, v)]"
| "map_set ((k', v') # m) k v = (if k' = k then (k, v) # m else (k', v') # map_set m k v)"

definition new_Map :: "('k \<times> 'v) list \<Rightarrow> ('k \<times> 'v) list" where
  "new_Map entries = foldl (\<lambda>m (k, v). map_set m k v) [] entries"

definition map_values :: "('k \<times> 'v) list \<Rightarrow> 'v list" where
  "map_values m = map snd m"

text \<open>The merge of the grouped hits: flatten, key by id in a Map, take its values.\<close>

definition resultSet :: "hit_group list \<Rightarrow> hit list" where
  "resultSet groupedResults =
     map_values (new_Map (map (\<lambda>item. (item_id item, item)) (concat (map result groupedResults))))"

definition flat_values :: "(string \<times> string list) list \<Rightarrow> string list" where
  "flat_values obj = concat (map snd obj)"

text \<open>An array is truthy, the empty one too.\<close>

definition truthy :: "'a list \<Rightarrow> bool" where
  "truthy xs = True"

definition search :: "db_state \<Rightarrow> db_state outcome" where
  "search db =
     (let searchTerm = query db;
          tags = flat_values (selectedFilters db)
      in if searchTerm = '''' \<and> length tags = 0 then fillResults db
         else (case index db of
                 None \<Rightarrow> Threw TypeError db
               | Some ix \<Rightarrow>
                   (let groupedResults =
                          search_fn ix searchTerm
                            \<lparr>index_fields = [''id'', ''title'', ''about'', ''P126''],
                             enrich = True, tag = tags\<rparr>;
                        rs = map item_doc (resultSet groupedResults)
                    in if length rs = 0 \<and> truthy (flat_values (selectedFilters db))
                       then Returned (updateResults [] db)
                       else Returned (updateResults rs db))))"

text \<open>
  \<open>db.selectedFilters[key]\<close> is \<open>undefined\<close> for a key the object does not have, and
  \<open>indexOf\<close> on it throws inside the update, which then changes nothing. Otherwise the
  object keeps its keys and their order, and the search runs on the updated state.
\<close>

fun obj_set :: "(string \<times> 'v) list \<Rightarrow> string \<Rightarrow> 'v \<Rightarrow> (string \<times> 'v) list" where
  "obj_set [] k v = [(k, v)]"
| "obj_set ((k', v') # m) k v = (if k' = k then (k, v) # m else (k', v') # obj_set m k v)"

definition handleFilterSelect :: "string \<Rightarrow> string \<Rightarrow> db_state \<Rightarrow> db_state outcome" where
  "handleFilterSelect key val db =
     (case map_of (selectedFilters db) key of
        None \<Rightarrow> Threw TypeError db
      | Some sel \<Rightarrow>
          search (db\<lparr>selectedFilters :=
                      (if val \<in> set sel
                       then obj_set (selectedFilters db) key (filter (\<lambda>e. e \<noteq> val) sel)
                       else obj_set (selectedFilters db) key (sel @ [val]))\<rparr>))"

section \<open>Sorting\<close>

text \<open>\<open>v == null\<close> holds of \<open>null\<close> and of \<open>undefined\<close>.\<close>

definition nullish :: "jsval \<Rightarrow> bool" where
  "nullish v = (v = JUndefined \<or> v = JNull)"

text \<open>
  The comparison function given to \<open>Array.prototype.sort\<close>. The collation
  \<open>String(x).localeCompare(String(y))\<close> is the host's and depends on its locale: it is
  the parameter \<open>localeCompare\<close>, on the two values.
\<close>

definition sort_compare ::
  "(jsval \<Rightarrow> jsval \<Rightarrow> int) \<Rightarrow> string \<Rightarrow> string \<Rightarrow> doc \<Rightarrow> doc \<Rightarrow> real" where
  "sort_compare localeCompare key ord a b =
     (let valA = get_field a key; valB = get_field b key
      in if nullish valA \<or> nullish valB then 0
         else (case (valA, valB) of
                 (JNum x, JNum y) \<Rightarrow> (if ord = ''desc'' then y - x else x - y)
               | _ \<Rightarrow> (if ord = ''desc'' then real_of_int (localeCompare valB valA)
                       else real_of_int (localeCompare valA valB))))"

text \<open>
  \<open>Array.prototype.sort\<close> is the host's as well. The language asks of it a stable
  sort: an ordered permutation whenever the comparison function is consistent on the
  elements, and an order the implementation chooses otherwise. The model inserts each
  element into the sorted prefix at the place a binary search gives, as V8 does for an
  array of fewer than 64 elements once it has found the first run: the pivot is compared
  with the middle element, \<open>order < 0\<close> moves the right bound and anything else the
  left one. The model starts from the empty prefix, without that first run, so where
  the comparison function is not consistent V8 can give another list (2, 3, \<open>null\<close>, 1
  is one run to V8 and stays as it is). For a consistent comparison function the choice
  of the algorithm does not matter: there is one ordered permutation that is stable.
\<close>

function bsearch :: "('a \<Rightarrow> 'a \<Rightarrow> real) \<Rightarrow> 'a \<Rightarrow> 'a list \<Rightarrow> nat \<Rightarrow> nat \<Rightarrow> nat" where
  "bsearch cmp pivot xs left right =
     (if left < right
      then (let mid = left + (right - left) div 2
            in if cmp pivot (xs ! mid) < 0 then bsearch cmp pivot xs left mid
               else bsearch cmp pivot xs (mid + 1) right)
      else left)"
  by pat_completeness auto
termination
  by (relation "measure (\<lambda>(cmp, pivot, xs, left, right). right - left)") auto

declare bsearch.simps [simp del]

definition binsert :: "('a \<Rightarrow> 'a \<Rightarrow> real) \<Rightarrow> 'a list \<Rightarrow> 'a \<Rightarrow> 'a list" where
  "binsert cmp xs pivot =
     (let i = bsearch cmp pivot xs 0 (length xs) in take i xs @ pivot # drop i xs)"

definition array_sort :: "('a \<Rightarrow> 'a \<Rightarrow> real) \<Rightarrow> 'a list \<Rightarrow> 'a list" where
  "array_sort cmp xs = foldl (binsert cmp) [] xs"

text \<open>\<open>toLowerCase\<close> on the letters A to Z; other characters stay.\<close>

definition toLowerCase :: "string \<Rightarrow> string" where
  "toLowerCase s =
     map (\<lambda>c. let n = (of_char c :: nat) in if 65 \<le> n \<and> n \<le> 90 then char_of (n + 32) else c) s"

definition sortResults ::
  "(jsval \<Rightarrow> jsval \<Rightarrow> int) \<Rightarrow> string \<Rightarrow> string \<Rightarrow> db_state \<Rightarrow> db_state" where
  "sortResults localeCompare key ord0 db =
     (let ord = toLowerCase ord0;
          rs = array_sort (sort_compare localeCompare key ord) (results db)
      in updateResults rs (db\<lparr>sort_state := \<lparr>skey = key, sorder = ord\<rparr>\<rparr>))"

section \<open>Selection state\<close>

text \<open>
  The value handed to \<open>localStorage.setItem\<close> is the text \<open>JSON.stringify\<close> makes; the
  model keeps the JSON value that text denotes. The storage takes every write.
\<close>

datatype json = JsonArray "string list" | JsonObject "(string \<times> json) list"

type_synonym storage = "string \<rightharpoonup> json"

text \<open>\<open>JSON.stringify({[dbKey]: ids})\<close>.\<close>

definition stringify_updated :: "string \<Rightarrow> string list \<Rightarrow> json" where
  "stringify_updated dbKey ids = JsonObject [(dbKey, JsonArray ids)]"

text \<open>
  \<open>db[dbKey]\<close> is \<open>undefined\<close> for a name \<open>db\<close> does not have; \<open>includes\<close> on it
  throws inside the update, before anything is stored. The two functions are modelled
  for the names outside \<open>member_names\<close>.
\<close>

definition toggleSelected ::
  "string \<Rightarrow> string \<Rightarrow> db_state \<times> storage \<Rightarrow> (db_state \<times> storage) outcome" where
  "toggleSelected dbKey val s =
     (case s of (db, localStorage) \<Rightarrow>
        (case selection db dbKey of
           None \<Rightarrow> Threw TypeError (db, localStorage)
         | Some cur \<Rightarrow>
             (if val \<in> set cur
              then (let updated = filter (\<lambda>v. v \<noteq> val) cur
                    in Returned (db\<lparr>selection := (selection db)(dbKey \<mapsto> updated)\<rparr>,
                                 localStorage(''eduvocs:'' @ dbKey \<mapsto> stringify_updated dbKey updated)))
              else (let updated = cur @ [val]
                    in Returned (db\<lparr>selection := (selection db)(dbKey \<mapsto> updated)\<rparr>,
                                 localStorage(''eduvocs:'' @ dbKey \<mapsto> stringify_updated dbKey updated))))))"

definition resetSelected :: "string \<Rightarrow> db_state \<times> storage \<Rightarrow> db_state \<times> storage" where
  "resetSelected dbKey s =
     (case s of (db, localStorage) \<Rightarrow>
        (let updated = []
         in (db\<lparr>selection := (selection db)(dbKey \<mapsto> updated)\<rparr>,
             localStorage(''eduvocs:'' @ dbKey \<mapsto> stringify_updated dbKey updated))))"

section \<open>Specification notions\<close>

text \<open>
  Deduplication as the specification words it: going through the hits in order, a hit is
  kept when its id has not been seen before.
\<close>

fun keep_first :: "string set \<Rightarrow> hit list \<Rightarrow> hit list" where
  "keep_first seen [] = []"
| "keep_first seen (h # hs) =
     (if item_id h \<in> seen then keep_first seen hs
      else h # keep_first (insert (item_id h) seen) hs)"

text \<open>The last hit of \<open>hs\<close> that has the id of \<open>h\<close> (\<open>h\<close> itself when there is none).\<close>

definition last_copy :: "hit list \<Rightarrow> hit \<Rightarrow> hit" where
  "last_copy hs h = last (filter (\<lambda>x. item_id x = item_id h) (h # hs))"

definition entries :: "hit list \<Rightarrow> (string \<times> hit) list" where
  "entries hs = map (\<lambda>item. (item_id item, item)) hs"

text \<open>
  The invariant of the selected filters: the keys are the configured ones, in their
  order, and no list holds a value twice.
\<close>

definition filters_ok :: "(string \<times> string list) list \<Rightarrow> bool" where
  "filters_ok sf = (map fst sf = config_filterKeys \<and> list_all distinct (map snd sf))"

text \<open>
  A comparison function is consistent on a set when it is a total preorder there: the
  signs of \<open>cmp a b\<close> and \<open>cmp b a\<close> are opposite, and \<open>\<le>\<close> is transitive.
\<close>

definition consistent_on :: "'a set \<Rightarrow> ('a \<Rightarrow> 'a \<Rightarrow> real) \<Rightarrow> bool" where
  "consistent_on S cmp =
     ((\<forall>a\<in>S. \<forall>b\<in>S. (cmp a b < 0) = (0 < cmp b a)) \<and>
      (\<forall>a\<in>S. \<forall>b\<in>S. \<forall>c\<in>S. cmp a b \<le> 0 \<and> cmp b c \<le> 0 \<longrightarrow> cmp a c \<le> 0))"

text \<open>
  With \<open>enrich\<close> the index answers with hits \<open>{id, doc: store[id]}\<close>: every hit carries
  the document the store holds under its id.
\<close>

definition enriched_from :: "(string \<times> doc) list \<Rightarrow> hit_group list \<Rightarrow> bool" where
  "enriched_from st gs =
     list_all (\<lambda>h. map_of st (item_id h) = Some (item_doc h)) (concat (map result gs))"

text \<open>What one toggle makes of a list of ids.\<close>

definition toggled :: "string \<Rightarrow> string list \<Rightarrow> string list" where
  "toggled val cur = (if val \<in> set cur then filter (\<lambda>v. v \<noteq> val) cur else cur @ [val])"

section \<open>Example states\<close>

text \<open>The state the store is created with.\<close>

definition db_init :: db_state where
  "db_init =
     \<lparr>resultsPerPage = 10, activePage = 1, query = '''', results = [], filters = [],
      index = None, sort_state = \<lparr>skey = '''', sorder = ''asc''\<rparr>, initizialized = False,
      filterKeys = config_filterKeys, selectedFilters = initFilters,
      selection = [''selectedVocabs'' \<mapsto> []]\<rparr>"

definition voc :: "string \<Rightarrow> doc" where
  "voc i = \<lparr>doc_id = i, doc_type = [marker], props = []\<rparr>"

definition other :: "string \<Rightarrow> doc" where
  "other i =
     \<lparr>doc_id = i, doc_type = [''http://www.w3.org/2004/02/skos/core#Concept''], props = []\<rparr>"

text \<open>A document with a value under \<open>issued\<close>.\<close>

definition issued :: "string \<Rightarrow> jsval \<Rightarrow> doc" where
  "issued i v = \<lparr>doc_id = i, doc_type = [marker], props = [(''issued'', v)]\<rparr>"

text \<open>An index of three documents whose search finds nothing.\<close>

definition ix_empty :: flex_index where
  "ix_empty =
     \<lparr>store = [(''a'', voc ''a''), (''s'', other ''s''), (''b'', voc ''b'')],
      search_fn = (\<lambda>term opts. [])\<rparr>"

text \<open>An index whose search answers with one group: a hit for every tag asked for.\<close>

definition ix_tags :: flex_index where
  "ix_tags =
     \<lparr>store = [(''X'', voc ''X''), (''Y'', voc ''Y'')],
      search_fn = (\<lambda>term opts.
        [\<lparr>label = ''tag'', result = map (\<lambda>t. \<lparr>item_id = t, item_doc = voc t\<rparr>) (tag opts)\<rparr>])\<rparr>"

text \<open>Grouped hits that find the id \<open>a\<close> in two fields, with the stored document both times.\<close>

definition groups_same :: "hit_group list" where
  "groups_same =
     [\<lparr>label = ''title'',
       result = [\<lparr>item_id = ''a'', item_doc = voc ''a''\<rparr>, \<lparr>item_id = ''b'', item_doc = voc ''b''\<rparr>]\<rparr>,
      \<lparr>label = ''about'', result = [\<lparr>item_id = ''a'', item_doc = voc ''a''\<rparr>]\<rparr>]"

text \<open>An index of the two documents whose search answers with these groups.\<close>

definition ix_twice :: flex_index where
  "ix_twice =
     \<lparr>store = [(''a'', voc ''a''), (''b'', voc ''b'')], search_fn = (\<lambda>term opts. groups_same)\<rparr>"

definition db_twice :: db_state where
  "db_twice = db_init\<lparr>index := Some ix_twice, query := ''bild''\<rparr>"

text \<open>
  The store after documents have been added one by one, each by \<open>store[id] = doc\<close>,
  and an index whose documents were added under the ids 10, b, 9, a, 2.
\<close>

definition store_of :: "(string \<times> doc) list \<Rightarrow> (string \<times> doc) list" where
  "store_of added = foldl (\<lambda>st (i, d). obj_set st i d) [] added"

definition ix_numeric :: flex_index where
  "ix_numeric =
     \<lparr>store = store_of [(''10'', voc ''10''), (''b'', voc ''b''), (''9'', voc ''9''),
                        (''a'', other ''a''), (''2'', voc ''2'')],
      search_fn = (\<lambda>term opts. [])\<rparr>"

definition db_numeric :: db_state where
  "db_numeric = db_init\<lparr>index := Some ix_numeric\<rparr>"

text \<open>A state with two selected ids.\<close>

definition db_selected :: db_state where
  "db_selected = db_init\<lparr>selection := [''selectedVocabs'' \<mapsto> [''42'', ''7'']]\<rparr>"

definition db_ready :: db_state where
  "db_ready = db_init\<lparr>index := Some ix_empty\<rparr>"

definition db_nomatch :: db_state where
  "db_nomatch =
     db_init\<lparr>index := Some ix_empty, query := ''xyz'',
             selectedFilters := [(''about'', [''X'']), (''educationalLevel'', []), (''P126'', [])]\<rparr>"

definition db_about :: db_state where
  "db_about =
     db_init\<lparr>index := Some ix_tags,
             selectedFilters := [(''about'', [''X'']), (''educationalLevel'', []), (''P126'', [])]\<rparr>"

definition db11 :: db_state where
  "db11 =
     db_init\<lparr>results := map voc [''a'', ''b'', ''c'', ''d'', ''e'', ''f'', ''g'', ''h'', ''i'', ''j'', ''k''],
             activePage := 0\<rparr>"

definition db_numbers :: db_state where
  "db_numbers =
     db_init\<lparr>results := [issued ''a'' (JNum 3), issued ''b'' (JNum 1), issued ''c'' (JNum 2),
                         issued ''d'' (JNum 1)],
             activePage := 2\<rparr>"

definition db_equal :: db_state where
  "db_equal =
     db_init\<lparr>results := [issued ''a'' (JNum 2), issued ''b'' (JNum 1), issued ''c'' (JNum 1),
                         issued ''d'' (JNum 1), issued ''e'' JNull, issued ''f'' (JNum 1),
                         issued ''g'' (JNum 1), issued ''h'' JNull],
             activePage := 0\<rparr>"

definition db_null :: db_state where
  "db_null =
     db_init\<lparr>results := [issued ''a'' (JNum 8), issued ''b'' (JNum 9), issued ''c'' (JNum 10),
                         issued ''d'' (JNum 7), issued ''e'' JNull, issued ''f'' (JNum 1)],
             activePage := 0\<rparr>"

section \<open>Pagination window\<close>

lemma js_slice_beyond: "int (length xs) \<le> start \<Longrightarrow> js_slice xs start fin = []"
  by (auto simp: js_slice_def Let_def)

lemma js_slice_nonneg:
  "0 \<le> start \<Longrightarrow> 0 \<le> n \<Longrightarrow> js_slice xs start (start + n) = take (nat n) (drop (nat start) xs)"
  by (auto simp: js_slice_def Let_def min_def)

text \<open>
  C5, as the code has it: the window is a total function of the state. For a page size
  that is not negative, a page index with \<open>pageIndex * pageSize \<ge> length results\<close>
  gives the empty slice, and a page index that is not negative gives the \<open>pageSize\<close>
  elements from \<open>pageIndex * pageSize\<close> on (fewer at the end of the list). Nothing is
  said of a negative page index: \<open>slice\<close> counts a negative bound from the end.
\<close>

theorem pagination_window:
  "0 \<le> resultsPerPage db \<Longrightarrow>
     (int (length (results db)) \<le> activePage db * resultsPerPage db \<longrightarrow> paginatedResults db = []) \<and>
     (0 \<le> activePage db \<longrightarrow>
        paginatedResults db =
          take (nat (resultsPerPage db)) (drop (nat (activePage db * resultsPerPage db)) (results db)))"
  by (simp add: paginatedResults_def Let_def js_slice_beyond js_slice_nonneg)

theorem pagination_window_witness:
  "0 \<le> resultsPerPage (updatePagination 2 db11) \<and>
   paginatedResults (updatePagination 2 db11) = [] \<and>
   paginatedResults (updatePagination 1 db11) = [voc ''k'']"
  using pagination_window [of "updatePagination 2 db11"]
    pagination_window [of "updatePagination 1 db11"]
  by (simp add: db11_def db_init_def updatePagination_def)

text \<open>
  Two steps back from the first page of eleven results the page index is \<open>-2\<close>, out of
  range, and the window is not empty: it holds the first result.
\<close>

theorem negative_page_counterexample:
  "activePage (updatePagination (-1) (updatePagination (-1) db11)) = -2 \<and>
   paginatedResults (updatePagination (-1) (updatePagination (-1) db11)) = [voc ''a''] \<and>
   paginatedResults (updatePagination (-1) (updatePagination (-1) db11)) \<noteq> []"
  by (simp add: db11_def db_init_def updatePagination_def paginatedResults_def js_slice_def Let_def)

section \<open>Search\<close>

lemma fillResults_page:
  "index db = Some ix \<Longrightarrow> \<exists>db'. fillResults db = Returned db' \<and> activePage db' = 0"
  by (simp add: fillResults_def updateResults_def)

lemma search_page:
  "index db = Some ix \<Longrightarrow> \<exists>db'. search db = Returned db' \<and> activePage db' = 0"
  by (simp add: search_def Let_def fillResults_def updateResults_def)

lemma selectedFilters_search: "selectedFilters (state_of (search db)) = selectedFilters db"
  by (simp add: search_def Let_def fillResults_def updateResults_def split: option.splits)

lemma search_selected:
  "index db = Some ix \<Longrightarrow> \<not> (query db = '''' \<and> flat_values (selectedFilters db) = []) \<Longrightarrow>
   search db =
     Returned (updateResults (map item_doc (resultSet (search_fn ix (query db)
       \<lparr>index_fields = [''id'', ''title'', ''about'', ''P126''], enrich = True,
        tag = flat_values (selectedFilters db)\<rparr>))) db)"
  by (auto simp: search_def Let_def truthy_def)

lemma Object_values_no_index:
  "\<forall>k\<in>fst ` set obj. \<not> is_array_index k \<Longrightarrow> Object_values obj = map snd obj"
proof -
  assume h: "\<forall>k\<in>fst ` set obj. \<not> is_array_index k"
  then have "filter (\<lambda>e. is_array_index (fst e)) obj = []"
    by (auto simp: filter_empty_conv)
  moreover from h have "filter (\<lambda>e. \<not> is_array_index (fst e)) obj = obj"
    by (auto simp: filter_id_conv)
  ultimately show ?thesis
    by (simp add: Object_values_def)
qed

lemma set_Object_values: "set (Object_values obj) = snd ` set obj"
  by (auto simp: Object_values_def)

lemma Object_values_ix_empty: "Object_values (store ix_empty) = [voc ''a'', other ''s'', voc ''b'']"
  by code_simp

lemma marked_ix_empty:
  "filter (\<lambda>e. marker \<in> set (doc_type e)) (Object_values (store ix_empty)) = [voc ''a'', voc ''b'']"
  by (simp add: Object_values_ix_empty voc_def other_def marker_def)

text \<open>
  C1, as the code has it: with an empty term and no selected facet value, \<open>search\<close> is
  \<open>fillResults\<close>; on an index it returns, and the results are exactly the stored
  documents whose \<open>type\<close> holds the marker URI, in the order \<open>Object.values\<close> lists
  the store: first the documents whose id is an array index, by ascending number, then
  the others in the order they were added. This is the order they were added in when no
  id is an array index.
\<close>

theorem search_empty_is_fill:
  "query db = '''' \<Longrightarrow> flat_values (selectedFilters db) = [] \<Longrightarrow>
     search db = fillResults db \<and>
     (\<forall>ix. index db = Some ix \<longrightarrow>
        search db =
          Returned (db\<lparr>results := filter (\<lambda>e. marker \<in> set (doc_type e)) (Object_values (store ix)),
                       activePage := 0\<rparr>) \<and>
        Object_values (store ix) =
          map snd (sort_key (\<lambda>e. index_value (fst e)) (filter (\<lambda>e. is_array_index (fst e)) (store ix))) @
          map snd (filter (\<lambda>e. \<not> is_array_index (fst e)) (store ix)) \<and>
        sorted (map (\<lambda>e. index_value (fst e))
          (sort_key (\<lambda>e. index_value (fst e)) (filter (\<lambda>e. is_array_index (fst e)) (store ix)))) \<and>
        set (filter (\<lambda>e. marker \<in> set (doc_type e)) (Object_values (store ix))) =
          {e \<in> snd ` set (store ix). marker \<in> set (doc_type e)} \<and>
        ((\<forall>k\<in>fst ` set (store ix). \<not> is_array_index k) \<longrightarrow>
           Object_values (store ix) = map snd (store ix)))"
proof -
  assume q: "query db = ''''" and t: "flat_values (selectedFilters db) = []"
  have a: "search db = fillResults db"
    using q t by (simp add: search_def)
  have b: "search db =
      Returned (db\<lparr>results := filter (\<lambda>e. marker \<in> set (doc_type e)) (Object_values (store ix)),
                   activePage := 0\<rparr>)" if "index db = Some ix" for ix
    using q t that by (simp add: search_def fillResults_def updateResults_def)
  have c: "Object_values (store ix) =
      map snd (sort_key (\<lambda>e. index_value (fst e)) (filter (\<lambda>e. is_array_index (fst e)) (store ix))) @
      map snd (filter (\<lambda>e. \<not> is_array_index (fst e)) (store ix))" for ix :: flex_index
    by (simp add: Object_values_def)
  have d: "sorted (map (\<lambda>e. index_value (fst e))
      (sort_key (\<lambda>e. index_value (fst e)) (filter (\<lambda>e. is_array_index (fst e)) (store ix))))"
    for ix :: flex_index
    by (rule sorted_sort_key)
  have e: "set (filter (\<lambda>e. marker \<in> set (doc_type e)) (Object_values (store ix))) =
      {e \<in> snd ` set (store ix). marker \<in> set (doc_type e)}" for ix :: flex_index
    by (simp only: set_filter set_Object_values)
  show ?thesis
    by (intro conjI allI impI) (rule a b c d e Object_values_no_index | assumption)+
qed

theorem search_empty_is_fill_witness:
  "query db_ready = '''' \<and> flat_values (selectedFilters db_ready) = [] \<and>
   index db_ready = Some ix_empty \<and>
   Object_values (store ix_empty) = map snd (store ix_empty) \<and>
   search db_ready = Returned (db_ready\<lparr>results := [voc ''a'', voc ''b''], activePage := 0\<rparr>)"
proof -
  have q: "query db_ready = ''''"
    by (simp add: db_ready_def db_init_def)
  have t: "flat_values (selectedFilters db_ready) = []"
    by (simp add: db_ready_def db_init_def initFilters_def config_filterKeys_def flat_values_def)
  have i: "index db_ready = Some ix_empty"
    by (simp add: db_ready_def)
  have n: "\<forall>k\<in>fst ` set (store ix_empty). \<not> is_array_index k"
    by (simp add: ix_empty_def is_array_index_def is_digit_def)
  note s = marked_ix_empty
  from search_empty_is_fill [OF q t] i
  have "search db_ready =
      Returned (db_ready\<lparr>results := filter (\<lambda>e. marker \<in> set (doc_type e)) (Object_values (store ix_empty)),
                         activePage := 0\<rparr>)"
    by blast
  moreover from search_empty_is_fill [OF q t] i n
  have "Object_values (store ix_empty) = map snd (store ix_empty)"
    by blast
  ultimately show ?thesis
    using q t i s by simp
qed

text \<open>
  Documents added under the ids 10, b, 9, a, 2, the one under \<open>a\<close> without the marker:
  the unfiltered results are the documents 2, 9, 10, b, while the order they were added
  in is 10, b, 9, 2.
\<close>

theorem store_order_counterexample:
  "query db_numeric = '''' \<and> flat_values (selectedFilters db_numeric) = [] \<and>
   map fst (store ix_numeric) = [''10'', ''b'', ''9'', ''a'', ''2''] \<and>
   results (state_of (search db_numeric)) = [voc ''2'', voc ''9'', voc ''10'', voc ''b''] \<and>
   filter (\<lambda>e. marker \<in> set (doc_type e)) (map snd (store ix_numeric)) =
     [voc ''10'', voc ''b'', voc ''9'', voc ''2''] \<and>
   [voc ''2'', voc ''9'', voc ''10'', voc ''b''] \<noteq> [voc ''10'', voc ''b'', voc ''9'', voc ''2'']"
proof -
  have st: "store ix_numeric =
      [(''10'', voc ''10''), (''b'', voc ''b''), (''9'', voc ''9''), (''a'', other ''a''), (''2'', voc ''2'')]"
    by (simp add: ix_numeric_def store_of_def)
  have ov: "Object_values (store ix_numeric) =
      [voc ''2'', voc ''9'', voc ''10'', voc ''b'', other ''a'']"
    by code_simp
  have q: "query db_numeric = ''''" "flat_values (selectedFilters db_numeric) = []"
    by (simp_all add: db_numeric_def db_init_def initFilters_def config_filterKeys_def flat_values_def)
  have "search db_numeric = fillResults db_numeric"
    using q by (simp add: search_def)
  then have r: "results (state_of (search db_numeric)) = [voc ''2'', voc ''9'', voc ''10'', voc ''b'']"
    by (simp add: fillResults_def db_numeric_def updateResults_def ov voc_def other_def marker_def)
  have ins: "filter (\<lambda>e. marker \<in> set (doc_type e)) (map snd (store ix_numeric)) =
      [voc ''10'', voc ''b'', voc ''9'', voc ''2'']"
    by (simp add: st voc_def other_def marker_def)
  have ne: "[voc ''2'', voc ''9'', voc ''10'', voc ''b''] \<noteq> [voc ''10'', voc ''b'', voc ''9'', voc ''2'']"
    by (simp add: voc_def)
  from q st r ins ne show ?thesis
    by simp
qed

text \<open>
  C3: on an index, with a facet value selected, when the merged and resolved list of
  hits is empty, \<open>search\<close> returns and the results are the empty list.
\<close>

theorem no_match_is_empty:
  "index db = Some ix \<Longrightarrow> flat_values (selectedFilters db) \<noteq> [] \<Longrightarrow>
   map item_doc (resultSet (search_fn ix (query db)
      \<lparr>index_fields = [''id'', ''title'', ''about'', ''P126''], enrich = True,
       tag = flat_values (selectedFilters db)\<rparr>)) = [] \<Longrightarrow>
   search db = Returned (db\<lparr>results := [], activePage := 0\<rparr>)"
  by (simp add: search_def Let_def updateResults_def)

theorem no_match_is_empty_witness:
  "index db_nomatch = Some ix_empty \<and> flat_values (selectedFilters db_nomatch) \<noteq> [] \<and>
   search db_nomatch = Returned (db_nomatch\<lparr>results := [], activePage := 0\<rparr>) \<and>
   fillResults db_nomatch = Returned (db_nomatch\<lparr>results := [voc ''a'', voc ''b''], activePage := 0\<rparr>)"
proof -
  have i: "index db_nomatch = Some ix_empty"
    by (simp add: db_nomatch_def)
  have f: "flat_values (selectedFilters db_nomatch) \<noteq> []"
    by (simp add: db_nomatch_def flat_values_def)
  have e: "map item_doc (resultSet (search_fn ix_empty (query db_nomatch)
      \<lparr>index_fields = [''id'', ''title'', ''about'', ''P126''], enrich = True,
       tag = flat_values (selectedFilters db_nomatch)\<rparr>)) = []"
    by (simp add: ix_empty_def resultSet_def new_Map_def map_values_def)
  have "fillResults db_nomatch = Returned (db_nomatch\<lparr>results := [voc ''a'', voc ''b''], activePage := 0\<rparr>)"
    by (simp add: fillResults_def i updateResults_def marked_ix_empty)
  with no_match_is_empty [OF i f e] i f show ?thesis
    by simp
qed

text \<open>
  C4: the tag constraint of the index query is the concatenation of the selected value
  lists, in the order of the facet keys, and the selection reaches the results of
  \<open>search\<close> through this flat list only.
\<close>

theorem tags_are_flattened:
  "(index db = Some ix \<and> \<not> (query db = '''' \<and> flat_values (selectedFilters db) = []) \<longrightarrow>
      search db =
        Returned (updateResults (map item_doc (resultSet (search_fn ix (query db)
          \<lparr>index_fields = [''id'', ''title'', ''about'', ''P126''], enrich = True,
           tag = concat (map snd (selectedFilters db))\<rparr>))) db)) \<and>
   (selectedFilters db = [(''about'', a), (''educationalLevel'', e), (''P126'', p)] \<longrightarrow>
      flat_values (selectedFilters db) = a @ e @ p) \<and>
   (flat_values sf = flat_values (selectedFilters db) \<longrightarrow>
      results (state_of (search (db\<lparr>selectedFilters := sf\<rparr>))) = results (state_of (search db)))"
  by (auto simp: search_def Let_def truthy_def flat_values_def fillResults_def updateResults_def
      split: option.splits)

theorem tags_are_flattened_witness:
  "index db_about = Some ix_tags \<and> flat_values (selectedFilters db_about) = [''X''] \<and>
   flat_values [(''about'', []), (''educationalLevel'', [''X'']), (''P126'', [])] = [''X''] \<and>
   search db_about = Returned (db_about\<lparr>results := [voc ''X''], activePage := 0\<rparr>) \<and>
   results (state_of (search (db_about
      \<lparr>selectedFilters := [(''about'', []), (''educationalLevel'', [''X'']), (''P126'', [])]\<rparr>))) = [voc ''X'']"
proof -
  let ?sf = "[(''about'', []), (''educationalLevel'', [''X'']), (''P126'', [])]"
  have i: "index db_about = Some ix_tags"
    by (simp add: db_about_def)
  have f: "flat_values (selectedFilters db_about) = [''X'']"
    by (simp add: db_about_def flat_values_def)
  have g: "flat_values ?sf = [''X'']"
    by (simp add: flat_values_def)
  have r: "map item_doc (resultSet (search_fn ix_tags (query db_about)
      \<lparr>index_fields = [''id'', ''title'', ''about'', ''P126''], enrich = True,
       tag = concat (map snd (selectedFilters db_about))\<rparr>)) = [voc ''X'']"
    by (simp add: db_about_def ix_tags_def resultSet_def new_Map_def map_values_def)
  note t = tags_are_flattened [of db_about ix_tags "[''X'']" "[]" "[]" ?sf]
  from t i f have s: "search db_about =
      Returned (updateResults (map item_doc (resultSet (search_fn ix_tags (query db_about)
        \<lparr>index_fields = [''id'', ''title'', ''about'', ''P126''], enrich = True,
         tag = concat (map snd (selectedFilters db_about))\<rparr>))) db_about)"
    by simp
  from t f g have "results (state_of (search (db_about\<lparr>selectedFilters := ?sf\<rparr>))) =
      results (state_of (search db_about))"
    by simp
  with s r i f g show ?thesis
    by (simp add: updateResults_def)
qed

section \<open>Results and the current page\<close>

text \<open>
  C9: \<open>updateResults\<close> sets the results to the given list and the page to 0 and leaves
  the rest of the state as it was. Sorting always ends there; the unfiltered fill, the
  search and the filter reset do on a created index, where they return.
\<close>

theorem updateResults_resets_page:
  "updateResults rs db = db\<lparr>results := rs, activePage := 0\<rparr> \<and>
   results (updateResults rs db) = rs \<and> activePage (updateResults rs db) = 0 \<and>
   resultsPerPage (updateResults rs db) = resultsPerPage db \<and>
   query (updateResults rs db) = query db \<and>
   filters (updateResults rs db) = filters db \<and>
   index (updateResults rs db) = index db \<and>
   sort_state (updateResults rs db) = sort_state db \<and>
   initizialized (updateResults rs db) = initizialized db \<and>
   filterKeys (updateResults rs db) = filterKeys db \<and>
   selectedFilters (updateResults rs db) = selectedFilters db \<and>
   selection (updateResults rs db) = selection db \<and>
   activePage (sortResults localeCompare key ord db) = 0 \<and>
   (\<forall>ix. index db = Some ix \<longrightarrow>
      (\<exists>db'. fillResults db = Returned db' \<and> activePage db' = 0) \<and>
      (\<exists>db'. search db = Returned db' \<and> activePage db' = 0) \<and>
      (\<exists>db'. resetFilters db = Returned db' \<and> activePage db' = 0))"
proof -
  have "\<exists>db'. resetFilters db = Returned db' \<and> activePage db' = 0" if "index db = Some ix" for ix
    using that by (simp add: resetFilters_def fillResults_def updateResults_def)
  then show ?thesis
    by (simp add: updateResults_def sortResults_def Let_def fillResults_page search_page)
qed

theorem updateResults_resets_page_witness:
  "index (updatePagination 3 db_ready) = Some ix_empty \<and>
   activePage (updatePagination 3 db_ready) = 4 \<and>
   activePage (updateResults [voc ''a''] (updatePagination 3 db_ready)) = 0 \<and>
   activePage (sortResults (\<lambda>a b. 0) ''name'' ''desc'' (updatePagination 3 db_ready)) = 0 \<and>
   (\<exists>db'. fillResults (updatePagination 3 db_ready) = Returned db' \<and> activePage db' = 0) \<and>
   (\<exists>db'. search (updatePagination 3 db_ready) = Returned db' \<and> activePage db' = 0) \<and>
   (\<exists>db'. resetFilters (updatePagination 3 db_ready) = Returned db' \<and> activePage db' = 0)"
proof -
  have i: "index (updatePagination 3 db_ready) = Some ix_empty"
    by (simp add: updatePagination_def db_ready_def)
  have p: "activePage (updatePagination 3 db_ready) = 4"
    by (simp add: updatePagination_def db_ready_def db_init_def)
  from updateResults_resets_page
    [of "[voc ''a'']" "updatePagination 3 db_ready" "\<lambda>a b. 0" "''name''" "''desc''"] i p
  show ?thesis
    by blast
qed

section \<open>Selected filters\<close>

lemma map_fst_obj_set: "k \<in> fst ` set m \<Longrightarrow> map fst (obj_set m k v) = map fst m"
  by (induction m) force+

lemma map_of_obj_set: "map_of (obj_set m k v) = (map_of m)(k \<mapsto> v)"
  by (induction m) auto

lemma list_all_obj_set:
  "list_all P (map snd m) \<Longrightarrow> P v \<Longrightarrow> list_all P (map snd (obj_set m k v))"
  by (induction m) auto

lemma filters_ok_obj_set:
  assumes "filters_ok sf" and "map_of sf k = Some old" and "distinct v"
  shows "filters_ok (obj_set sf k v)"
proof -
  from assms(2) have "k \<in> fst ` set sf"
    by (metis map_of_eq_None_iff option.distinct(1))
  with assms(1,3) show ?thesis
    by (simp add: filters_ok_def map_fst_obj_set list_all_obj_set)
qed

lemma filters_ok_lookup: "filters_ok sf \<Longrightarrow> map_of sf k = Some sel \<Longrightarrow> distinct sel"
  by (auto simp: filters_ok_def list_all_iff dest!: map_of_SomeD)

lemma filters_ok_init: "filters_ok initFilters"
  by (simp add: filters_ok_def initFilters_def config_filterKeys_def)

lemma selectedFilters_reset: "selectedFilters (state_of (resetFilters db)) = initFilters"
  by (simp add: resetFilters_def fillResults_def updateResults_def split: option.splits)

lemma handleFilterSelect_filters:
  "selectedFilters (state_of (handleFilterSelect key val db)) =
     (case map_of (selectedFilters db) key of
        None \<Rightarrow> selectedFilters db
      | Some sel \<Rightarrow> obj_set (selectedFilters db) key
          (if val \<in> set sel then filter (\<lambda>e. e \<noteq> val) sel else sel @ [val]))"
  by (simp add: handleFilterSelect_def selectedFilters_search split: option.splits)

text \<open>
  C10: the selected filters of the initial state satisfy the invariant (the keys are the
  configured filter keys, no list has a duplicate), the state after \<open>resetFilters\<close>
  satisfies it, and \<open>handleFilterSelect\<close> preserves it; for a key of the map it
  removes every occurrence of the value when the value is present and appends it once
  when it is absent.
\<close>

theorem selectedFilters_invariant:
  "filters_ok (selectedFilters db_init) \<and>
   filters_ok (selectedFilters (state_of (resetFilters db))) \<and>
   (filters_ok (selectedFilters db) \<longrightarrow>
      filters_ok (selectedFilters (state_of (handleFilterSelect key val db))) \<and>
      (\<forall>sel. map_of (selectedFilters db) key = Some sel \<longrightarrow>
         map_of (selectedFilters (state_of (handleFilterSelect key val db))) key =
           Some (if val \<in> set sel then filter (\<lambda>e. e \<noteq> val) sel else sel @ [val]) \<and>
         (val \<in> set sel \<longrightarrow> val \<notin> set (filter (\<lambda>e. e \<noteq> val) sel)) \<and>
         (val \<notin> set sel \<longrightarrow> count_list (sel @ [val]) val = 1)))"
proof -
  have "filters_ok (selectedFilters (state_of (handleFilterSelect key val db)))"
    if ok: "filters_ok (selectedFilters db)"
  proof (cases "map_of (selectedFilters db) key")
    case None
    with ok show ?thesis by (simp add: handleFilterSelect_filters)
  next
    case (Some sel)
    from ok Some have d: "distinct sel" by (rule filters_ok_lookup)
    then have "distinct (if val \<in> set sel then filter (\<lambda>e. e \<noteq> val) sel else sel @ [val])"
      by simp
    with ok Some show ?thesis
      by (simp add: handleFilterSelect_filters filters_ok_obj_set del: distinct_append)
  qed
  moreover have "count_list (sel @ [val]) val = 1" if "val \<notin> set sel" for sel
    using that by (simp add: count_list_0_iff)
  moreover have "filters_ok (selectedFilters db_init)"
    by (simp add: db_init_def filters_ok_init)
  ultimately show ?thesis
    by (simp add: selectedFilters_reset filters_ok_init handleFilterSelect_filters map_of_obj_set)
qed

theorem selectedFilters_invariant_witness:
  "filters_ok (selectedFilters db_about) \<and>
   map_of (selectedFilters db_about) ''about'' = Some [''X''] \<and>
   filters_ok (selectedFilters (state_of (handleFilterSelect ''about'' ''X'' db_about))) \<and>
   map_of (selectedFilters (state_of (handleFilterSelect ''about'' ''X'' db_about))) ''about'' = Some [] \<and>
   map_of (selectedFilters (state_of (handleFilterSelect ''about'' ''Y'' db_about))) ''about'' =
     Some [''X'', ''Y'']"
proof -
  have ok: "filters_ok (selectedFilters db_about)"
    by (simp add: db_about_def filters_ok_def config_filterKeys_def)
  have m: "map_of (selectedFilters db_about) ''about'' = Some [''X'']"
    by (simp add: db_about_def)
  from selectedFilters_invariant [of db_about "''about''" "''X''"]
    selectedFilters_invariant [of db_about "''about''" "''Y''"] ok m
  show ?thesis
    by simp
qed

section \<open>Selection state\<close>

lemma toggleSelected_Some:
  "selection db dbKey = Some cur \<Longrightarrow>
   toggleSelected dbKey val (db, ls) =
     Returned (db\<lparr>selection := (selection db)(dbKey \<mapsto> toggled val cur)\<rparr>,
               ls(''eduvocs:'' @ dbKey \<mapsto> JsonObject [(dbKey, JsonArray (toggled val cur))]))"
  by (simp add: toggleSelected_def toggled_def Let_def stringify_updated_def)

lemma toggled_twice_set: "set (toggled val (toggled val cur)) = set cur"
  by (auto simp: toggled_def)

lemma toggled_twice_absent: "val \<notin> set cur \<Longrightarrow> toggled val (toggled val cur) = cur"
  by (auto simp: toggled_def filter_id_conv)

text \<open>
  C7, as the code has it: for a key that holds a list of ids, one toggle returns, leaves
  the list without the value when it was present and with the value appended
  otherwise, and stores the object with that list under the key; a second toggle of
  the same key and value returns too, the list then has the members it had at the
  start (it is the same list when the value was absent, and the list with the value
  moved to the end when it was present), and the entry stored under \<open>eduvocs:\<close>
  followed by the key is the object whose member, named by the key, is the array of
  that list. For a name the state does not have the toggle throws and changes nothing.
\<close>

theorem toggle_twice_restores:
  "(\<forall>cur. selection db dbKey = Some cur \<longrightarrow>
      (\<exists>db1 ls1 db2 ls2 fin.
         toggleSelected dbKey val (db, ls) = Returned (db1, ls1) \<and>
         selection db1 dbKey = Some (if val \<in> set cur then filter (\<lambda>v. v \<noteq> val) cur else cur @ [val]) \<and>
         ls1 (''eduvocs:'' @ dbKey) =
           Some (JsonObject [(dbKey, JsonArray (if val \<in> set cur then filter (\<lambda>v. v \<noteq> val) cur
                                                else cur @ [val]))]) \<and>
         toggleSelected dbKey val (db1, ls1) = Returned (db2, ls2) \<and>
         selection db2 dbKey = Some fin \<and> set fin = set cur \<and>
         (val \<notin> set cur \<longrightarrow> fin = cur) \<and>
         (val \<in> set cur \<longrightarrow> fin = filter (\<lambda>v. v \<noteq> val) cur @ [val]) \<and>
         ls2 (''eduvocs:'' @ dbKey) = Some (JsonObject [(dbKey, JsonArray fin)]))) \<and>
   (selection db dbKey = None \<and> dbKey \<notin> set member_names \<longrightarrow>
      toggleSelected dbKey val (db, ls) = Threw TypeError (db, ls))"
proof (intro conjI allI impI)
  fix cur
  assume sel: "selection db dbKey = Some cur"
  let ?db1 = "db\<lparr>selection := (selection db)(dbKey \<mapsto> toggled val cur)\<rparr>"
  let ?ls1 = "ls(''eduvocs:'' @ dbKey \<mapsto> JsonObject [(dbKey, JsonArray (toggled val cur))])"
  let ?fin = "toggled val (toggled val cur)"
  let ?db2 = "?db1\<lparr>selection := (selection ?db1)(dbKey \<mapsto> ?fin)\<rparr>"
  let ?ls2 = "?ls1(''eduvocs:'' @ dbKey \<mapsto> JsonObject [(dbKey, JsonArray ?fin)])"
  have s1: "selection ?db1 dbKey = Some (toggled val cur)"
    by simp
  have t1: "toggleSelected dbKey val (db, ls) = Returned (?db1, ?ls1)"
    by (rule toggleSelected_Some [OF sel])
  have t2: "toggleSelected dbKey val (?db1, ?ls1) = Returned (?db2, ?ls2)"
    by (rule toggleSelected_Some [OF s1])
  have u: "toggled val cur = (if val \<in> set cur then filter (\<lambda>v. v \<noteq> val) cur else cur @ [val])"
    by (simp add: toggled_def)
  have p: "val \<in> set cur \<longrightarrow> ?fin = filter (\<lambda>v. v \<noteq> val) cur @ [val]"
    by (simp add: toggled_def)
  have a: "val \<notin> set cur \<longrightarrow> ?fin = cur"
    by (simp add: toggled_twice_absent)
  have "toggleSelected dbKey val (db, ls) = Returned (?db1, ?ls1) \<and>
      selection ?db1 dbKey = Some (if val \<in> set cur then filter (\<lambda>v. v \<noteq> val) cur else cur @ [val]) \<and>
      ?ls1 (''eduvocs:'' @ dbKey) =
        Some (JsonObject [(dbKey, JsonArray (if val \<in> set cur then filter (\<lambda>v. v \<noteq> val) cur
                                             else cur @ [val]))]) \<and>
      toggleSelected dbKey val (?db1, ?ls1) = Returned (?db2, ?ls2) \<and>
      selection ?db2 dbKey = Some ?fin \<and> set ?fin = set cur \<and>
      (val \<notin> set cur \<longrightarrow> ?fin = cur) \<and>
      (val \<in> set cur \<longrightarrow> ?fin = filter (\<lambda>v. v \<noteq> val) cur @ [val]) \<and>
      ?ls2 (''eduvocs:'' @ dbKey) = Some (JsonObject [(dbKey, JsonArray ?fin)])"
    using t1 t2 p a by (simp add: u [symmetric] toggled_twice_set)
  then show "\<exists>db1 ls1 db2 ls2 fin.
      toggleSelected dbKey val (db, ls) = Returned (db1, ls1) \<and>
      selection db1 dbKey = Some (if val \<in> set cur then filter (\<lambda>v. v \<noteq> val) cur else cur @ [val]) \<and>
      ls1 (''eduvocs:'' @ dbKey) =
        Some (JsonObject [(dbKey, JsonArray (if val \<in> set cur then filter (\<lambda>v. v \<noteq> val) cur
                                             else cur @ [val]))]) \<and>
      toggleSelected dbKey val (db1, ls1) = Returned (db2, ls2) \<and>
      selection db2 dbKey = Some fin \<and> set fin = set cur \<and>
      (val \<notin> set cur \<longrightarrow> fin = cur) \<and>
      (val \<in> set cur \<longrightarrow> fin = filter (\<lambda>v. v \<noteq> val) cur @ [val]) \<and>
      ls2 (''eduvocs:'' @ dbKey) = Some (JsonObject [(dbKey, JsonArray fin)])"
    by blast
next
  assume "selection db dbKey = None \<and> dbKey \<notin> set member_names"
  then show "toggleSelected dbKey val (db, ls) = Threw TypeError (db, ls)"
    by (simp add: toggleSelected_def)
qed

theorem toggle_twice_restores_witness:
  "selection db_selected ''selectedVocabs'' = Some [''42'', ''7''] \<and>
   (\<exists>db1 ls1 db2 ls2.
      toggleSelected ''selectedVocabs'' ''42'' (db_selected, Map.empty) = Returned (db1, ls1) \<and>
      selection db1 ''selectedVocabs'' = Some [''7''] \<and>
      ls1 ''eduvocs:selectedVocabs'' = Some (JsonObject [(''selectedVocabs'', JsonArray [''7''])]) \<and>
      toggleSelected ''selectedVocabs'' ''42'' (db1, ls1) = Returned (db2, ls2) \<and>
      selection db2 ''selectedVocabs'' = Some [''7'', ''42''] \<and>
      ls2 ''eduvocs:selectedVocabs'' =
        Some (JsonObject [(''selectedVocabs'', JsonArray [''7'', ''42''])])) \<and>
   selection db_selected ''favorites'' = None \<and> ''favorites'' \<notin> set member_names \<and>
   toggleSelected ''favorites'' ''42'' (db_selected, Map.empty) = Threw TypeError (db_selected, Map.empty)"
proof -
  have sel: "selection db_selected ''selectedVocabs'' = Some [''42'', ''7'']"
    by (simp add: db_selected_def)
  have no: "selection db_selected ''favorites'' = None" "''favorites'' \<notin> set member_names"
    by (simp_all add: db_selected_def member_names_def)
  from toggle_twice_restores [of db_selected "''selectedVocabs''" "''42''" Map.empty] sel
  obtain db1 ls1 db2 ls2 fin where
    "toggleSelected ''selectedVocabs'' ''42'' (db_selected, Map.empty) = Returned (db1, ls1)"
    "selection db1 ''selectedVocabs'' = Some [''7'']"
    "ls1 ''eduvocs:selectedVocabs'' = Some (JsonObject [(''selectedVocabs'', JsonArray [''7''])])"
    "toggleSelected ''selectedVocabs'' ''42'' (db1, ls1) = Returned (db2, ls2)"
    "selection db2 ''selectedVocabs'' = Some fin" "fin = [''7'', ''42'']"
    "ls2 ''eduvocs:selectedVocabs'' = Some (JsonObject [(''selectedVocabs'', JsonArray fin)])"
    by auto
  moreover from toggle_twice_restores [of db_selected "''favorites''" "''42''" Map.empty] no
  have "toggleSelected ''favorites'' ''42'' (db_selected, Map.empty) =
      Threw TypeError (db_selected, Map.empty)"
    by blast
  ultimately show ?thesis
    using sel no by blast
qed

text \<open>
  The initial state has no member \<open>favorites\<close>: the toggle of 42 under that name
  throws, nothing is appended and nothing is stored.
\<close>

theorem toggle_unknown_key_counterexample:
  "selection db_init ''favorites'' = None \<and>
   toggleSelected ''favorites'' ''42'' (db_init, Map.empty) = Threw TypeError (db_init, Map.empty) \<and>
   selection (fst (state_of (toggleSelected ''favorites'' ''42'' (db_init, Map.empty)))) ''favorites''
     \<noteq> Some [''42''] \<and>
   snd (state_of (toggleSelected ''favorites'' ''42'' (db_init, Map.empty))) ''eduvocs:favorites'' = None"
  by (simp add: toggleSelected_def db_init_def)

text \<open>
  C8, as the code has it: a toggle of a key that holds a list, and every reset, writes
  one entry, under \<open>eduvocs:\<close> followed by the key, and leaves the other entries as
  they were; the value is the JSON object whose one member, named by the key, is the
  array of all ids of the updated list. A toggle of a name the state does not have
  throws and writes nothing.
\<close>

theorem selection_persisted_as_object:
  "(\<forall>cur. selection db dbKey = Some cur \<longrightarrow>
      (\<exists>upd. toggleSelected dbKey val (db, ls) =
         Returned (db\<lparr>selection := (selection db)(dbKey \<mapsto> upd)\<rparr>,
                   ls(''eduvocs:'' @ dbKey \<mapsto> JsonObject [(dbKey, JsonArray upd)])) \<and>
         upd = (if val \<in> set cur then filter (\<lambda>v. v \<noteq> val) cur else cur @ [val]))) \<and>
   (selection db dbKey = None \<and> dbKey \<notin> set member_names \<longrightarrow>
      toggleSelected dbKey val (db, ls) = Threw TypeError (db, ls)) \<and>
   resetSelected dbKey (db, ls) =
     (db\<lparr>selection := (selection db)(dbKey \<mapsto> [])\<rparr>,
      ls(''eduvocs:'' @ dbKey \<mapsto> JsonObject [(dbKey, JsonArray [])]))"
  by (simp add: toggleSelected_Some toggled_def resetSelected_def stringify_updated_def
      toggleSelected_def Let_def)

theorem selection_persisted_as_object_witness:
  "selection db_init ''selectedVocabs'' = Some [] \<and>
   toggleSelected ''selectedVocabs'' ''42'' (db_init, Map.empty) =
     Returned (db_init\<lparr>selection := (selection db_init)(''selectedVocabs'' \<mapsto> [''42''])\<rparr>,
               [''eduvocs:selectedVocabs'' \<mapsto> JsonObject [(''selectedVocabs'', JsonArray [''42''])]]) \<and>
   selection db_init ''favorites'' = None \<and> ''favorites'' \<notin> set member_names \<and>
   toggleSelected ''favorites'' ''42'' (db_init, Map.empty) = Threw TypeError (db_init, Map.empty)"
proof -
  have sel: "selection db_init ''selectedVocabs'' = Some []"
    by (simp add: db_init_def)
  have no: "selection db_init ''favorites'' = None" "''favorites'' \<notin> set member_names"
    by (simp_all add: db_init_def member_names_def)
  from selection_persisted_as_object [of db_init "''selectedVocabs''" "''42''" Map.empty]
    selection_persisted_as_object [of db_init "''favorites''" "''42''" Map.empty] sel no
  show ?thesis
    by simp
qed

text \<open>
  After one toggle of \<open>42\<close> from the initial state the stored value is an object with
  the member \<open>selectedVocabs\<close>, not an array of ids.
\<close>

theorem persisted_value_counterexample:
  "snd (state_of (toggleSelected ''selectedVocabs'' ''42'' (db_init, Map.empty)))
      ''eduvocs:selectedVocabs'' =
     Some (JsonObject [(''selectedVocabs'', JsonArray [''42''])]) \<and>
   JsonObject [(''selectedVocabs'', JsonArray [''42''])] \<noteq> JsonArray [''42'']"
  by (simp add: toggleSelected_def db_init_def stringify_updated_def Let_def)

section \<open>Merging the grouped hits\<close>

lemma keep_first_append:
  "keep_first seen (xs @ ys) = keep_first seen xs @ keep_first (seen \<union> item_id ` set xs) ys"
  by (induction xs arbitrary: seen) (auto simp: insert_absorb)

lemma set_keep_first: "item_id ` set (keep_first seen hs) = item_id ` set hs - seen"
  by (induction hs arbitrary: seen) auto

lemma keep_first_subset: "set (keep_first seen hs) \<subseteq> set hs"
  by (induction hs arbitrary: seen) auto

lemma distinct_keep_first: "distinct (map item_id (keep_first seen hs))"
proof (induction hs arbitrary: seen)
  case Nil
  show ?case by simp
next
  case (Cons h hs)
  have "item_id h \<notin> item_id ` set (keep_first (insert (item_id h) seen) hs)"
    by (simp add: set_keep_first)
  with Cons show ?case by simp
qed

lemma map_set_absent: "k \<notin> fst ` set m \<Longrightarrow> map_set m k v = m @ [(k, v)]"
  by (induction m) auto

lemma map_set_present:
  "distinct (map g xs) \<Longrightarrow> k \<in> g ` set xs \<Longrightarrow>
   map_set (map (\<lambda>x. (g x, f x)) xs) k v = map (\<lambda>x. (g x, if g x = k then v else f x)) xs"
proof (induction xs)
  case Nil
  then show ?case by simp
next
  case (Cons x xs)
  show ?case
  proof (cases "g x = k")
    case True
    with Cons.prems have "\<forall>y\<in>set xs. g y \<noteq> k" by (auto simp: image_iff)
    then have "map (\<lambda>x. (g x, if g x = k then v else f x)) xs = map (\<lambda>x. (g x, f x)) xs"
      by simp
    with True show ?thesis by simp
  next
    case False
    with Cons show ?thesis by auto
  qed
qed

lemma new_Map_snoc: "new_Map (es @ [(k, v)]) = map_set (new_Map es) k v"
  by (simp add: new_Map_def)

lemma last_copy_snoc:
  "last_copy (hs @ [h]) g = (if item_id h = item_id g then h else last_copy hs g)"
  by (simp add: last_copy_def)

lemma new_Map_entries:
  "new_Map (entries hs) = map (\<lambda>h. (item_id h, last_copy hs h)) (keep_first {} hs)"
proof (induction hs rule: rev_induct)
  case Nil
  show ?case by (simp add: entries_def new_Map_def)
next
  case (snoc h hs)
  let ?kf = "keep_first {} hs"
  have step: "new_Map (entries (hs @ [h])) =
      map_set (map (\<lambda>x. (item_id x, last_copy hs x)) ?kf) (item_id h) h"
    using snoc by (simp add: entries_def new_Map_snoc)
  show ?case
  proof (cases "item_id h \<in> item_id ` set hs")
    case True
    then have "item_id h \<in> item_id ` set ?kf"
      by (simp add: set_keep_first)
    then have "map_set (map (\<lambda>x. (item_id x, last_copy hs x)) ?kf) (item_id h) h =
        map (\<lambda>x. (item_id x, if item_id x = item_id h then h else last_copy hs x)) ?kf"
      using distinct_keep_first by (rule map_set_present [rotated])
    with step True show ?thesis
      by (auto simp: keep_first_append last_copy_snoc)
  next
    case False
    then have "item_id h \<notin> fst ` set (map (\<lambda>x. (item_id x, last_copy hs x)) ?kf)"
      by (simp add: image_image set_keep_first)
    then have "map_set (map (\<lambda>x. (item_id x, last_copy hs x)) ?kf) (item_id h) h =
        map (\<lambda>x. (item_id x, last_copy hs x)) ?kf @ [(item_id h, h)]"
      by (rule map_set_absent)
    moreover have "\<forall>g\<in>set ?kf. item_id h \<noteq> item_id g"
      using False keep_first_subset [of "{}" hs] by auto
    ultimately show ?thesis
      using step False by (simp add: keep_first_append last_copy_snoc last_copy_def)
  qed
qed

lemma resultSet_eq:
  "resultSet gs = map (last_copy (concat (map result gs))) (keep_first {} (concat (map result gs)))"
  using new_Map_entries [of "concat (map result gs)"]
  by (simp add: resultSet_def map_values_def entries_def comp_def)

lemma item_id_last_copy: "item_id (last_copy hs h) = item_id h"
proof -
  have "filter (\<lambda>x. item_id x = item_id h) (h # hs) \<noteq> []" by simp
  then have "last_copy hs h \<in> set (filter (\<lambda>x. item_id x = item_id h) (h # hs))"
    unfolding last_copy_def by (rule last_in_set)
  then show ?thesis by auto
qed

lemma last_copy_same:
  assumes "\<forall>a\<in>set hs. \<forall>b\<in>set hs. item_id a = item_id b \<longrightarrow> a = b" and "h \<in> set hs"
  shows "last_copy hs h = h"
proof -
  have ne: "filter (\<lambda>x. item_id x = item_id h) (h # hs) \<noteq> []" by simp
  have "last_copy hs h \<in> set (filter (\<lambda>x. item_id x = item_id h) (h # hs))"
    unfolding last_copy_def using ne by (rule last_in_set)
  with assms show ?thesis by auto
qed

lemma keep_first_first:
  "h \<in> set (keep_first seen hs) \<Longrightarrow>
   \<exists>pre post. hs = pre @ h # post \<and> item_id h \<notin> item_id ` set pre \<and> item_id h \<notin> seen"
proof (induction hs arbitrary: seen)
  case Nil
  then show ?case by simp
next
  case (Cons h0 hs)
  show ?case
  proof (cases "item_id h0 \<in> seen")
    case True
    with Cons.prems have "h \<in> set (keep_first seen hs)" by simp
    from Cons.IH [OF this] obtain pre post where
      p: "hs = pre @ h # post" "item_id h \<notin> item_id ` set pre" "item_id h \<notin> seen"
      by blast
    with True have "h0 # hs = (h0 # pre) @ h # post \<and> item_id h \<notin> item_id ` set (h0 # pre)"
      by auto
    with p(3) show ?thesis by blast
  next
    case False
    show ?thesis
    proof (cases "h = h0")
      case True
      with False have "h0 # hs = [] @ h # hs \<and> item_id h \<notin> item_id ` set [] \<and> item_id h \<notin> seen"
        by simp
      then show ?thesis by blast
    next
      case ne: False
      with False Cons.prems have "h \<in> set (keep_first (insert (item_id h0) seen) hs)" by simp
      from Cons.IH [OF this] obtain pre post where
        p: "hs = pre @ h # post" "item_id h \<notin> item_id ` set pre" "item_id h \<notin> insert (item_id h0) seen"
        by blast
      then have "h0 # hs = (h0 # pre) @ h # post \<and> item_id h \<notin> item_id ` set (h0 # pre) \<and>
          item_id h \<notin> seen"
        by auto
      then show ?thesis by blast
    qed
  qed
qed

lemma enriched_same:
  assumes "enriched_from st gs"
    and "a \<in> set (concat (map result gs))" and "b \<in> set (concat (map result gs))"
    and "item_id a = item_id b"
  shows "a = b"
proof -
  from assms(1,2) have "map_of st (item_id a) = Some (item_doc a)"
    unfolding enriched_from_def list_all_iff by blast
  moreover from assms(1,3) have "map_of st (item_id b) = Some (item_doc b)"
    unfolding enriched_from_def list_all_iff by blast
  ultimately have "item_doc a = item_doc b"
    using assms(4) by simp
  with assms(4) show ?thesis
    by simp
qed

lemma resultSet_enriched:
  assumes "enriched_from st gs"
  shows "resultSet gs = keep_first {} (concat (map result gs))"
proof -
  let ?flat = "concat (map result gs)"
  have same: "\<forall>a\<in>set ?flat. \<forall>b\<in>set ?flat. item_id a = item_id b \<longrightarrow> a = b"
    using enriched_same [OF assms] by blast
  have "map (last_copy ?flat) (keep_first {} ?flat) = map (\<lambda>h. h) (keep_first {} ?flat)"
    using keep_first_subset [of "{}" ?flat] last_copy_same [OF same]
    by (intro map_cong) auto
  then show ?thesis by (simp add: resultSet_eq)
qed

text \<open>
  C2: when the hits are those of the enriched index, each with the stored document of
  its id, the merged list is the list of first occurrences of the flattened hits: every
  id of the hits is there once, the hit kept for it is the first one with that id, and
  the kept hits stand in the order of these first occurrences. On a created index a
  search that does not take the unfiltered path stores the documents of this list.
\<close>

theorem merged_hits_unique:
  "enriched_from st gs \<Longrightarrow>
   resultSet gs = keep_first {} (concat (map result gs)) \<and>
   distinct (map item_id (resultSet gs)) \<and>
   set (map item_id (resultSet gs)) = set (map item_id (concat (map result gs))) \<and>
   (\<forall>h\<in>set (resultSet gs).
      \<exists>pre post. concat (map result gs) = pre @ h # post \<and> item_id h \<notin> item_id ` set pre) \<and>
   (index db = Some ix \<and> st = store ix \<and>
    \<not> (query db = '''' \<and> flat_values (selectedFilters db) = []) \<and>
    gs = search_fn ix (query db)
           \<lparr>index_fields = [''id'', ''title'', ''about'', ''P126''], enrich = True,
            tag = flat_values (selectedFilters db)\<rparr> \<longrightarrow>
      results (state_of (search db)) = map item_doc (keep_first {} (concat (map result gs))))"
proof -
  assume en: "enriched_from st gs"
  let ?flat = "concat (map result gs)"
  have eq: "resultSet gs = keep_first {} ?flat"
    using en by (rule resultSet_enriched)
  have d: "distinct (map item_id (resultSet gs))"
    by (simp only: eq distinct_keep_first)
  have s: "set (map item_id (resultSet gs)) = set (map item_id ?flat)"
    using set_keep_first [of "{}" ?flat] by (simp add: eq)
  have f: "\<exists>pre post. ?flat = pre @ h # post \<and> item_id h \<notin> item_id ` set pre"
    if "h \<in> set (resultSet gs)" for h
    using keep_first_first [of h "{}" ?flat] that by (auto simp: eq)
  have r: "results (state_of (search db)) = map item_doc (keep_first {} ?flat)"
    if "index db = Some ix" "\<not> (query db = '''' \<and> flat_values (selectedFilters db) = [])"
      "gs = search_fn ix (query db)
           \<lparr>index_fields = [''id'', ''title'', ''about'', ''P126''], enrich = True,
            tag = flat_values (selectedFilters db)\<rparr>"
    using search_selected [OF that(1,2)] eq that(3) by (simp add: updateResults_def)
  from eq d s f r show ?thesis
    by blast
qed

theorem merged_hits_unique_witness:
  "enriched_from (store ix_twice) groups_same \<and>
   concat (map result groups_same) =
     [\<lparr>item_id = ''a'', item_doc = voc ''a''\<rparr>, \<lparr>item_id = ''b'', item_doc = voc ''b''\<rparr>,
      \<lparr>item_id = ''a'', item_doc = voc ''a''\<rparr>] \<and>
   resultSet groups_same =
     [\<lparr>item_id = ''a'', item_doc = voc ''a''\<rparr>, \<lparr>item_id = ''b'', item_doc = voc ''b''\<rparr>] \<and>
   index db_twice = Some ix_twice \<and>
   \<not> (query db_twice = '''' \<and> flat_values (selectedFilters db_twice) = []) \<and>
   results (state_of (search db_twice)) = [voc ''a'', voc ''b'']"
proof -
  have en: "enriched_from (store ix_twice) groups_same"
    by (simp add: enriched_from_def ix_twice_def groups_same_def)
  have fl: "concat (map result groups_same) =
     [\<lparr>item_id = ''a'', item_doc = voc ''a''\<rparr>, \<lparr>item_id = ''b'', item_doc = voc ''b''\<rparr>,
      \<lparr>item_id = ''a'', item_doc = voc ''a''\<rparr>]"
    by (simp add: groups_same_def)
  have k: "keep_first {} (concat (map result groups_same)) =
      [\<lparr>item_id = ''a'', item_doc = voc ''a''\<rparr>, \<lparr>item_id = ''b'', item_doc = voc ''b''\<rparr>]"
    by (simp add: groups_same_def)
  have i: "index db_twice = Some ix_twice"
    by (simp add: db_twice_def)
  have q: "\<not> (query db_twice = '''' \<and> flat_values (selectedFilters db_twice) = [])"
    by (simp add: db_twice_def)
  have g: "groups_same = search_fn ix_twice (query db_twice)
           \<lparr>index_fields = [''id'', ''title'', ''about'', ''P126''], enrich = True,
            tag = flat_values (selectedFilters db_twice)\<rparr>"
    by (simp add: ix_twice_def)
  note m = merged_hits_unique [OF en, of db_twice ix_twice]
  from m have "resultSet groups_same = keep_first {} (concat (map result groups_same))"
    by blast
  moreover from m i q g
  have "results (state_of (search db_twice)) =
      map item_doc (keep_first {} (concat (map result groups_same)))"
    by blast
  ultimately show ?thesis
    using en fl k i q by simp
qed

section \<open>Sorting the results\<close>

lemma consistent_flip:
  "consistent_on S cmp \<Longrightarrow> a \<in> S \<Longrightarrow> b \<in> S \<Longrightarrow> (0 \<le> cmp a b) = (cmp b a \<le> 0)"
  unfolding consistent_on_def by (metis not_less)

lemma consistent_trans:
  "consistent_on S cmp \<Longrightarrow> a \<in> S \<Longrightarrow> b \<in> S \<Longrightarrow> c \<in> S \<Longrightarrow>
   cmp a b \<le> 0 \<Longrightarrow> cmp b c \<le> 0 \<Longrightarrow> cmp a c \<le> 0"
  unfolding consistent_on_def by blast

lemma consistent_less_le:
  assumes "consistent_on S cmp" "p \<in> S" "m \<in> S" "x \<in> S" "cmp p m < 0" "cmp m x \<le> 0"
  shows "cmp p x < 0"
proof (rule ccontr)
  assume "\<not> cmp p x < 0"
  then have "cmp x p \<le> 0"
    using consistent_flip [OF assms(1,2,4)] by simp
  with assms have "cmp m p \<le> 0"
    by (blast intro: consistent_trans)
  then have "0 \<le> cmp p m"
    using consistent_flip [OF assms(1,2,3)] by simp
  with assms(5) show False by simp
qed

lemma consistent_ge_le:
  assumes "consistent_on S cmp" "p \<in> S" "m \<in> S" "x \<in> S" "0 \<le> cmp p m" "cmp x m \<le> 0"
  shows "0 \<le> cmp p x"
proof -
  from assms have "cmp m p \<le> 0"
    using consistent_flip [OF assms(1,2,3)] by simp
  with assms have "cmp x p \<le> 0"
    by (blast intro: consistent_trans)
  then show ?thesis
    using consistent_flip [OF assms(1,2,4)] by simp
qed

lemma consistent_equiv:
  assumes "consistent_on S cmp" "z \<in> S" "p \<in> S" "y \<in> S" "cmp z p = 0" "cmp z y = 0"
  shows "cmp p y = 0"
proof -
  have zp: "cmp p z \<le> 0" and yz: "cmp y z \<le> 0"
    using consistent_flip [OF assms(1,2,3)] consistent_flip [OF assms(1,2,4)] assms(5,6) by simp_all
  have "cmp p y \<le> 0"
    using consistent_trans [OF assms(1,3,2,4) zp] assms(6) by simp
  moreover have "cmp y p \<le> 0"
    using consistent_trans [OF assms(1,4,2,3) yz] assms(5) by simp
  then have "0 \<le> cmp p y"
    using consistent_flip [OF assms(1,3,4)] by simp
  ultimately show ?thesis by simp
qed

lemma bsearch_stop: "\<not> left < right \<Longrightarrow> bsearch cmp p xs left right = left"
  by (subst bsearch.simps) simp

lemma bsearch_left:
  "left < right \<Longrightarrow> cmp p (xs ! (left + (right - left) div 2)) < 0 \<Longrightarrow>
   bsearch cmp p xs left right = bsearch cmp p xs left (left + (right - left) div 2)"
  by (subst bsearch.simps) (simp add: Let_def)

lemma bsearch_right:
  "left < right \<Longrightarrow> \<not> cmp p (xs ! (left + (right - left) div 2)) < 0 \<Longrightarrow>
   bsearch cmp p xs left right = bsearch cmp p xs (left + (right - left) div 2 + 1) right"
  by (subst bsearch.simps) (simp add: Let_def)

lemma consistent_refl: "consistent_on S cmp \<Longrightarrow> a \<in> S \<Longrightarrow> cmp a a = 0"
  unfolding consistent_on_def by (metis less_asym linorder_cases)

lemma bsearch_spec:
  "consistent_on S cmp \<Longrightarrow> set xs \<subseteq> S \<Longrightarrow> p \<in> S \<Longrightarrow> sorted_wrt (\<lambda>a b. cmp a b \<le> 0) xs \<Longrightarrow>
   left \<le> right \<Longrightarrow> right \<le> length xs \<Longrightarrow>
   \<forall>x\<in>set (take left xs). 0 \<le> cmp p x \<Longrightarrow>
   \<forall>x\<in>set (drop right xs). cmp p x < 0 \<Longrightarrow>
   (\<forall>x\<in>set (take (bsearch cmp p xs left right) xs). 0 \<le> cmp p x) \<and>
   (\<forall>x\<in>set (drop (bsearch cmp p xs left right) xs). cmp p x < 0)"
proof (induction cmp p xs left right rule: bsearch.induct)
  case (1 cmp pivot xs left right)
  note c = \<open>consistent_on S cmp\<close> and sub = \<open>set xs \<subseteq> S\<close> and p = \<open>pivot \<in> S\<close>
  note srt = \<open>sorted_wrt (\<lambda>a b. cmp a b \<le> 0) xs\<close>
  show ?case
  proof (cases "left < right")
    case False
    with "1.prems" have "left = right" by simp
    with "1.prems" False show ?thesis by (simp add: bsearch_stop)
  next
    case True
    let ?mid = "left + (right - left) div 2"
    from True "1.prems" have m: "left \<le> ?mid" "?mid < right" "?mid < length xs" by auto
    have split: "xs = take ?mid xs @ xs ! ?mid # drop (Suc ?mid) xs"
      using m(3) by (rule id_take_nth_drop)
    have mS: "xs ! ?mid \<in> S"
      using sub m(3) by auto
    have "sorted_wrt (\<lambda>a b. cmp a b \<le> 0) (take ?mid xs @ xs ! ?mid # drop (Suc ?mid) xs)"
      using srt split by simp
    then have below: "\<forall>x\<in>set (take ?mid xs). cmp x (xs ! ?mid) \<le> 0"
      and above: "\<forall>y\<in>set (drop (Suc ?mid) xs). cmp (xs ! ?mid) y \<le> 0"
      by (auto simp: sorted_wrt_append)
    have self: "cmp (xs ! ?mid) (xs ! ?mid) \<le> 0"
      using consistent_refl [OF c mS] by simp
    show ?thesis
    proof (cases "cmp pivot (xs ! ?mid) < 0")
      case lt: True
      have d: "drop ?mid xs = xs ! ?mid # drop (Suc ?mid) xs"
        using m(3) by (simp add: Cons_nth_drop_Suc)
      have "cmp pivot x < 0" if "x \<in> set (drop ?mid xs)" for x
      proof -
        from that d have "x = xs ! ?mid \<or> x \<in> set (drop (Suc ?mid) xs)"
          by simp
        then have "cmp (xs ! ?mid) x \<le> 0"
          using above self by auto
        moreover have "x \<in> S"
          using that sub by (auto dest: in_set_dropD)
        ultimately show ?thesis
          using consistent_less_le [OF c p mS _ lt] by blast
      qed
      then have "\<forall>x\<in>set (drop ?mid xs). cmp pivot x < 0"
        by blast
      with "1.IH"(1) [OF True refl lt c sub p srt m(1)] m "1.prems"(7)
      show ?thesis
        using True lt by (simp add: bsearch_left)
    next
      case ge: False
      have t: "take (?mid + 1) xs = take ?mid xs @ [xs ! ?mid]"
        using m(3) by (simp add: take_Suc_conv_app_nth)
      from ge have ge': "0 \<le> cmp pivot (xs ! ?mid)"
        by simp
      have "0 \<le> cmp pivot x" if "x \<in> set (take (?mid + 1) xs)" for x
      proof -
        from that t have "x = xs ! ?mid \<or> x \<in> set (take ?mid xs)"
          by auto
        then have "cmp x (xs ! ?mid) \<le> 0"
          using below self by auto
        moreover have "x \<in> S"
          using that sub by (auto dest: in_set_takeD)
        ultimately show ?thesis
          using consistent_ge_le [OF c p mS _ ge'] by blast
      qed
      then have "\<forall>x\<in>set (take (?mid + 1) xs). 0 \<le> cmp pivot x"
        by blast
      with "1.IH"(2) [OF True refl ge c sub p srt] m "1.prems"(6,8)
      show ?thesis
        using True ge by (simp add: bsearch_right)
    qed
  qed
qed

lemma mset_binsert: "mset (binsert cmp xs p) = add_mset p (mset xs)"
proof -
  have "mset (take i xs) + mset (drop i xs) = mset xs" for i
    by (metis append_take_drop_id mset_append)
  then show ?thesis
    by (simp add: binsert_def Let_def)
qed

lemma array_sort_snoc: "array_sort cmp (xs @ [x]) = binsert cmp (array_sort cmp xs) x"
  by (simp add: array_sort_def)

lemma mset_array_sort: "mset (array_sort cmp xs) = mset xs"
  by (induction xs rule: rev_induct) (simp_all add: array_sort_snoc mset_binsert, simp add: array_sort_def)


lemma binsert_place:
  assumes "consistent_on S cmp" "set xs \<subseteq> S" "p \<in> S" "sorted_wrt (\<lambda>a b. cmp a b \<le> 0) xs"
  shows "\<exists>i. binsert cmp xs p = take i xs @ p # drop i xs \<and>
             (\<forall>x\<in>set (take i xs). 0 \<le> cmp p x) \<and> (\<forall>x\<in>set (drop i xs). cmp p x < 0)"
  using bsearch_spec [OF assms, of 0 "length xs"]
  by (intro exI [of _ "bsearch cmp p xs 0 (length xs)"]) (simp add: binsert_def Let_def)

lemma sorted_binsert:
  assumes c: "consistent_on S cmp" and sub: "set xs \<subseteq> S" and p: "p \<in> S"
    and srt: "sorted_wrt (\<lambda>a b. cmp a b \<le> 0) xs"
  shows "sorted_wrt (\<lambda>a b. cmp a b \<le> 0) (binsert cmp xs p)"
proof -
  from binsert_place [OF assms] obtain i where
    eq: "binsert cmp xs p = take i xs @ p # drop i xs"
    and lo: "\<forall>x\<in>set (take i xs). 0 \<le> cmp p x"
    and hi: "\<forall>x\<in>set (drop i xs). cmp p x < 0"
    by blast
  have "sorted_wrt (\<lambda>a b. cmp a b \<le> 0) (take i xs @ drop i xs)"
    using srt by simp
  then have parts: "sorted_wrt (\<lambda>a b. cmp a b \<le> 0) (take i xs)"
    "sorted_wrt (\<lambda>a b. cmp a b \<le> 0) (drop i xs)"
    "\<forall>x\<in>set (take i xs). \<forall>y\<in>set (drop i xs). cmp x y \<le> 0"
    unfolding sorted_wrt_append by blast+
  have "cmp x p \<le> 0" if "x \<in> set (take i xs)" for x
  proof -
    from that sub have "x \<in> S" by (auto dest: in_set_takeD)
    with lo that show ?thesis
      using consistent_flip [OF c p, of x] by simp
  qed
  moreover have "cmp p y \<le> 0" if "y \<in> set (drop i xs)" for y
    using hi that by fastforce
  ultimately show ?thesis
    unfolding eq sorted_wrt_append using parts by auto
qed

lemma stable_binsert:
  assumes c: "consistent_on S cmp" and sub: "set xs \<subseteq> S" and p: "p \<in> S"
    and srt: "sorted_wrt (\<lambda>a b. cmp a b \<le> 0) xs" and z: "z \<in> S"
  shows "filter (\<lambda>y. cmp z y = 0) (binsert cmp xs p) =
         filter (\<lambda>y. cmp z y = 0) xs @ filter (\<lambda>y. cmp z y = 0) [p]"
proof -
  from binsert_place [OF c sub p srt] obtain i where
    eq: "binsert cmp xs p = take i xs @ p # drop i xs"
    and hi: "\<forall>x\<in>set (drop i xs). cmp p x < 0"
    by blast
  have whole: "filter (\<lambda>y. cmp z y = 0) xs =
      filter (\<lambda>y. cmp z y = 0) (take i xs) @ filter (\<lambda>y. cmp z y = 0) (drop i xs)"
    by (metis append_take_drop_id filter_append)
  show ?thesis
  proof (cases "cmp z p = 0")
    case False
    then show ?thesis by (simp add: eq whole)
  next
    case True
    have "cmp z y \<noteq> 0" if "y \<in> set (drop i xs)" for y
    proof
      assume "cmp z y = 0"
      moreover from that sub have "y \<in> S" by (auto dest: in_set_dropD)
      ultimately have "cmp p y = 0"
        using consistent_equiv [OF c z p _ True] by blast
      with hi that show False by fastforce
    qed
    then have "filter (\<lambda>y. cmp z y = 0) (drop i xs) = []"
      by (simp add: filter_empty_conv)
    with True show ?thesis by (simp add: eq whole)
  qed
qed

lemma set_array_sort: "set (array_sort cmp xs) = set xs"
  by (metis mset_array_sort set_mset_mset)

lemma sorted_array_sort:
  "consistent_on S cmp \<Longrightarrow> set xs \<subseteq> S \<Longrightarrow> sorted_wrt (\<lambda>a b. cmp a b \<le> 0) (array_sort cmp xs)"
proof (induction xs rule: rev_induct)
  case Nil
  show ?case by (simp add: array_sort_def)
next
  case (snoc x xs)
  then have "sorted_wrt (\<lambda>a b. cmp a b \<le> 0) (binsert cmp (array_sort cmp xs) x)"
    by (intro sorted_binsert [where S = S]) (simp_all add: set_array_sort)
  then show ?case by (simp add: array_sort_snoc)
qed

lemma stable_array_sort:
  "consistent_on S cmp \<Longrightarrow> set xs \<subseteq> S \<Longrightarrow> z \<in> S \<Longrightarrow>
   filter (\<lambda>y. cmp z y = 0) (array_sort cmp xs) = filter (\<lambda>y. cmp z y = 0) xs"
proof (induction xs rule: rev_induct)
  case Nil
  show ?case by (simp add: array_sort_def)
next
  case (snoc x xs)
  then have "filter (\<lambda>y. cmp z y = 0) (binsert cmp (array_sort cmp xs) x) =
      filter (\<lambda>y. cmp z y = 0) (array_sort cmp xs) @ filter (\<lambda>y. cmp z y = 0) [x]"
    by (intro stable_binsert [where S = S] sorted_array_sort [where S = S])
      (simp_all add: set_array_sort)
  with snoc show ?case by (simp add: array_sort_snoc)
qed

lemma sort_compare_nullish:
  "nullish (get_field a key) \<or> nullish (get_field b key) \<Longrightarrow> sort_compare lc key ord a b = 0"
  by (simp add: sort_compare_def Let_def)

lemma sort_compare_numbers:
  "get_field a key = JNum x \<Longrightarrow> get_field b key = JNum y \<Longrightarrow>
   sort_compare lc key ord a b = (if ord = ''desc'' then y - x else x - y)"
  by (simp add: sort_compare_def Let_def nullish_def)

lemma sort_compare_collate:
  "\<not> nullish (get_field a key) \<Longrightarrow> \<not> nullish (get_field b key) \<Longrightarrow>
   \<not> (\<exists>x y. get_field a key = JNum x \<and> get_field b key = JNum y) \<Longrightarrow>
   sort_compare lc key ord a b =
     (if ord = ''desc'' then real_of_int (lc (get_field b key) (get_field a key))
      else real_of_int (lc (get_field a key) (get_field b key)))"
  by (auto simp: sort_compare_def Let_def split: jsval.splits)

lemma consistent_on_numbers:
  assumes "\<forall>d\<in>S. \<exists>x. get_field d key = JNum x"
  shows "consistent_on S (sort_compare lc key ord)"
  unfolding consistent_on_def
proof (intro conjI ballI impI)
  fix a b assume "a \<in> S" "b \<in> S"
  with assms obtain x y where "get_field a key = JNum x" "get_field b key = JNum y" by blast
  then show "(sort_compare lc key ord a b < 0) = (0 < sort_compare lc key ord b a)"
    by (auto simp: sort_compare_numbers)
next
  fix a b c assume "a \<in> S" "b \<in> S" "c \<in> S"
    and le: "sort_compare lc key ord a b \<le> 0 \<and> sort_compare lc key ord b c \<le> 0"
  with assms obtain x y z where "get_field a key = JNum x" "get_field b key = JNum y"
    "get_field c key = JNum z" by blast
  with le show "sort_compare lc key ord a c \<le> 0"
    by (auto simp: sort_compare_numbers split: if_splits)
qed

lemma stable_sorted_unique:
  "consistent_on S cmp \<Longrightarrow> set ys \<subseteq> S \<Longrightarrow> length zs = length ys \<Longrightarrow>
   sorted_wrt (\<lambda>a b. cmp a b \<le> 0) ys \<Longrightarrow> sorted_wrt (\<lambda>a b. cmp a b \<le> 0) zs \<Longrightarrow>
   set zs \<subseteq> S \<Longrightarrow>
   (\<forall>w\<in>S. filter (\<lambda>y. cmp w y = 0) ys = filter (\<lambda>y. cmp w y = 0) zs) \<Longrightarrow> ys = zs"
proof (induction ys arbitrary: zs)
  case Nil
  then show ?case by simp
next
  case (Cons y ys)
  from Cons.prems(3) obtain z zs' where zs: "zs = z # zs'"
    by (cases zs) auto
  note c = Cons.prems(1)
  from Cons.prems zs have yS: "y \<in> S" and zS: "z \<in> S" by auto
  have seg: "filter (\<lambda>u. cmp w u = 0) (y # ys) = filter (\<lambda>u. cmp w u = 0) (z # zs')" if "w \<in> S" for w
    using Cons.prems(7) that zs by blast
  have yy: "cmp y y = 0" and zz: "cmp z z = 0"
    using consistent_refl [OF c] yS zS by auto
  have sets: "{u \<in> set (y # ys). cmp w u = 0} = {u \<in> set (z # zs'). cmp w u = 0}" if "w \<in> S" for w
    using seg [OF that] by (metis set_filter)
  have zin: "z = y \<or> z \<in> set ys"
    using sets [OF zS] zz by auto
  have yin: "y = z \<or> y \<in> set zs'"
    using sets [OF yS] yy by auto
  have "cmp y z \<le> 0"
    using zin Cons.prems(4) yy by auto
  moreover have "cmp z y \<le> 0"
    using yin Cons.prems(5) zz zs by auto
  ultimately have "cmp y z = 0"
    using consistent_flip [OF c yS zS] by simp
  with seg [OF yS] yy have yz: "y = z" by simp
  have "ys = zs'"
  proof (rule Cons.IH [OF c])
    show "set ys \<subseteq> S" using Cons.prems(2) by simp
    show "length zs' = length ys" using Cons.prems zs by simp
    show "sorted_wrt (\<lambda>a b. cmp a b \<le> 0) ys" using Cons.prems by simp
    show "sorted_wrt (\<lambda>a b. cmp a b \<le> 0) zs'" using Cons.prems zs by simp
    show "set zs' \<subseteq> S" using Cons.prems zs by simp
    show "\<forall>w\<in>S. filter (\<lambda>y. cmp w y = 0) ys = filter (\<lambda>y. cmp w y = 0) zs'"
    proof
      fix w assume "w \<in> S"
      from seg [OF this] yz show "filter (\<lambda>y. cmp w y = 0) ys = filter (\<lambda>y. cmp w y = 0) zs'"
        by (simp split: if_splits)
    qed
  qed
  with yz zs show ?case by simp
qed

lemma sort_compare_same_value:
  "get_field a key = get_field b key \<Longrightarrow>
   sort_compare lc key ord a b = sort_compare lc key ord a a"
  by (simp add: sort_compare_def Let_def)

lemma sortResults_eq:
  "sortResults lc key ord0 db =
     db\<lparr>sort_state := \<lparr>skey = key, sorder = toLowerCase ord0\<rparr>,
        results := array_sort (sort_compare lc key (toLowerCase ord0)) (results db),
        activePage := 0\<rparr>"
  by (simp add: sortResults_def Let_def updateResults_def)

text \<open>
  C6, as the code has it. The comparison is 0 when either value is \<open>null\<close> or missing,
  the difference of the two values when both are numbers, and the collation of the two
  values otherwise, with the operands exchanged for \<open>desc\<close>. \<open>sort\<close> returns for
  every state, key and order; the new results are a permutation of the old ones. When
  the comparison is consistent on the results, the new results are ordered by it, every
  pair that compares equal keeps its relative order, records with equal values under
  the key compare equal, and no other permutation of the results is ordered and keeps
  these orders.
\<close>

theorem sort_stable_when_consistent:
  "(nullish (get_field a key) \<or> nullish (get_field b key) \<longrightarrow> sort_compare lc key ord a b = 0) \<and>
   (\<forall>x y. get_field a key = JNum x \<and> get_field b key = JNum y \<longrightarrow>
      sort_compare lc key ord a b = (if ord = ''desc'' then y - x else x - y)) \<and>
   (\<not> nullish (get_field a key) \<and> \<not> nullish (get_field b key) \<and>
    \<not> (\<exists>x y. get_field a key = JNum x \<and> get_field b key = JNum y) \<longrightarrow>
      sort_compare lc key ord a b =
        (if ord = ''desc'' then real_of_int (lc (get_field b key) (get_field a key))
         else real_of_int (lc (get_field a key) (get_field b key)))) \<and>
   sortResults lc key ord0 db =
     db\<lparr>sort_state := \<lparr>skey = key, sorder = toLowerCase ord0\<rparr>,
        results := array_sort (sort_compare lc key (toLowerCase ord0)) (results db),
        activePage := 0\<rparr> \<and>
   mset (results (sortResults lc key ord0 db)) = mset (results db) \<and>
   (consistent_on (set (results db)) (sort_compare lc key (toLowerCase ord0)) \<longrightarrow>
      sorted_wrt (\<lambda>u v. sort_compare lc key (toLowerCase ord0) u v \<le> 0)
        (results (sortResults lc key ord0 db)) \<and>
      (\<forall>z\<in>set (results db).
         filter (\<lambda>y. sort_compare lc key (toLowerCase ord0) z y = 0) (results (sortResults lc key ord0 db)) =
         filter (\<lambda>y. sort_compare lc key (toLowerCase ord0) z y = 0) (results db)) \<and>
      (\<forall>u\<in>set (results db). \<forall>v\<in>set (results db).
         get_field u key = get_field v key \<longrightarrow> sort_compare lc key (toLowerCase ord0) u v = 0) \<and>
      (\<forall>ys. mset ys = mset (results db) \<and>
            sorted_wrt (\<lambda>u v. sort_compare lc key (toLowerCase ord0) u v \<le> 0) ys \<and>
            (\<forall>z\<in>set (results db).
               filter (\<lambda>y. sort_compare lc key (toLowerCase ord0) z y = 0) ys =
               filter (\<lambda>y. sort_compare lc key (toLowerCase ord0) z y = 0) (results db)) \<longrightarrow>
            ys = results (sortResults lc key ord0 db)))"
proof -
  let ?cmp = "sort_compare lc key (toLowerCase ord0)"
  have r: "results (sortResults lc key ord0 db) = array_sort ?cmp (results db)"
    by (simp add: sortResults_eq)
  have perm: "mset (results (sortResults lc key ord0 db)) = mset (results db)"
    by (simp add: r mset_array_sort)
  have cons: "sorted_wrt (\<lambda>u v. ?cmp u v \<le> 0) (results (sortResults lc key ord0 db)) \<and>
      (\<forall>z\<in>set (results db).
         filter (\<lambda>y. ?cmp z y = 0) (results (sortResults lc key ord0 db)) =
         filter (\<lambda>y. ?cmp z y = 0) (results db)) \<and>
      (\<forall>u\<in>set (results db). \<forall>v\<in>set (results db). get_field u key = get_field v key \<longrightarrow> ?cmp u v = 0) \<and>
      (\<forall>ys. mset ys = mset (results db) \<and> sorted_wrt (\<lambda>u v. ?cmp u v \<le> 0) ys \<and>
            (\<forall>z\<in>set (results db). filter (\<lambda>y. ?cmp z y = 0) ys = filter (\<lambda>y. ?cmp z y = 0) (results db)) \<longrightarrow>
            ys = results (sortResults lc key ord0 db))"
    if c: "consistent_on (set (results db)) ?cmp"
  proof (intro conjI ballI impI allI)
    fix ys
    assume h: "mset ys = mset (results db) \<and> sorted_wrt (\<lambda>u v. ?cmp u v \<le> 0) ys \<and>
        (\<forall>z\<in>set (results db). filter (\<lambda>y. ?cmp z y = 0) ys = filter (\<lambda>y. ?cmp z y = 0) (results db))"
    then have sub: "set ys \<subseteq> set (results db)"
      by (metis set_mset_mset subset_refl)
    from h have len: "length (array_sort ?cmp (results db)) = length ys"
      by (metis mset_array_sort size_mset)
    have "ys = array_sort ?cmp (results db)"
      using c sub len
    proof (rule stable_sorted_unique)
      show "sorted_wrt (\<lambda>u v. ?cmp u v \<le> 0) ys"
        using h by blast
      show "sorted_wrt (\<lambda>u v. ?cmp u v \<le> 0) (array_sort ?cmp (results db))"
        using c by (rule sorted_array_sort) simp
      show "set (array_sort ?cmp (results db)) \<subseteq> set (results db)"
        by (simp add: set_array_sort)
      show "\<forall>w\<in>set (results db). filter (\<lambda>y. ?cmp w y = 0) ys =
          filter (\<lambda>y. ?cmp w y = 0) (array_sort ?cmp (results db))"
        using h c by (simp add: stable_array_sort [where S = "set (results db)"])
    qed
    then show "ys = results (sortResults lc key ord0 db)"
      by (simp add: r)
  next
    show "sorted_wrt (\<lambda>u v. ?cmp u v \<le> 0) (results (sortResults lc key ord0 db))"
      unfolding r using c by (rule sorted_array_sort) simp
  next
    fix z assume "z \<in> set (results db)"
    with c show "filter (\<lambda>y. ?cmp z y = 0) (results (sortResults lc key ord0 db)) =
        filter (\<lambda>y. ?cmp z y = 0) (results db)"
      unfolding r by (intro stable_array_sort [where S = "set (results db)"]) simp_all
  next
    fix u v assume u: "u \<in> set (results db)" and uv: "get_field u key = get_field v key"
    have "?cmp u v = ?cmp u u"
      using uv by (rule sort_compare_same_value)
    also have "\<dots> = 0"
      using c u by (rule consistent_refl)
    finally show "?cmp u v = 0" .
  qed
  have a1: "nullish (get_field a key) \<or> nullish (get_field b key) \<longrightarrow> sort_compare lc key ord a b = 0"
    by (simp add: sort_compare_nullish)
  have a2: "\<forall>x y. get_field a key = JNum x \<and> get_field b key = JNum y \<longrightarrow>
      sort_compare lc key ord a b = (if ord = ''desc'' then y - x else x - y)"
    by (simp add: sort_compare_numbers)
  have a3: "\<not> nullish (get_field a key) \<and> \<not> nullish (get_field b key) \<and>
    \<not> (\<exists>x y. get_field a key = JNum x \<and> get_field b key = JNum y) \<longrightarrow>
      sort_compare lc key ord a b =
        (if ord = ''desc'' then real_of_int (lc (get_field b key) (get_field a key))
         else real_of_int (lc (get_field a key) (get_field b key)))"
    using sort_compare_collate [of a key b lc ord] by blast
  have a4: "consistent_on (set (results db)) ?cmp \<longrightarrow>
      sorted_wrt (\<lambda>u v. ?cmp u v \<le> 0) (results (sortResults lc key ord0 db)) \<and>
      (\<forall>z\<in>set (results db).
         filter (\<lambda>y. ?cmp z y = 0) (results (sortResults lc key ord0 db)) =
         filter (\<lambda>y. ?cmp z y = 0) (results db)) \<and>
      (\<forall>u\<in>set (results db). \<forall>v\<in>set (results db). get_field u key = get_field v key \<longrightarrow> ?cmp u v = 0) \<and>
      (\<forall>ys. mset ys = mset (results db) \<and> sorted_wrt (\<lambda>u v. ?cmp u v \<le> 0) ys \<and>
            (\<forall>z\<in>set (results db). filter (\<lambda>y. ?cmp z y = 0) ys = filter (\<lambda>y. ?cmp z y = 0) (results db)) \<longrightarrow>
            ys = results (sortResults lc key ord0 db))"
    by (rule impI) (rule cons)
  show ?thesis
    by (intro conjI) (rule a1 a2 a3 sortResults_eq perm a4)+
qed


theorem sort_stable_when_consistent_witness:
  "consistent_on (set (results db_numbers)) (sort_compare (\<lambda>a b. 0) ''issued'' (toLowerCase ''ASC'')) \<and>
   results (sortResults (\<lambda>a b. 0) ''issued'' ''ASC'' db_numbers) =
     [issued ''b'' (JNum 1), issued ''d'' (JNum 1), issued ''c'' (JNum 2), issued ''a'' (JNum 3)] \<and>
   sorted_wrt (\<lambda>u v. sort_compare (\<lambda>a b. 0) ''issued'' (toLowerCase ''ASC'') u v \<le> 0)
     (results (sortResults (\<lambda>a b. 0) ''issued'' ''ASC'' db_numbers)) \<and>
   filter (\<lambda>y. sort_compare (\<lambda>a b. 0) ''issued'' (toLowerCase ''ASC'') (issued ''b'' (JNum 1)) y = 0)
     (results (sortResults (\<lambda>a b. 0) ''issued'' ''ASC'' db_numbers)) =
   filter (\<lambda>y. sort_compare (\<lambda>a b. 0) ''issued'' (toLowerCase ''ASC'') (issued ''b'' (JNum 1)) y = 0)
     (results db_numbers)"
proof -
  let ?cmp = "sort_compare (\<lambda>a b. 0) ''issued'' (toLowerCase ''ASC'')"
  have c: "consistent_on (set (results db_numbers)) ?cmp"
    by (rule consistent_on_numbers) (simp add: db_numbers_def issued_def get_field_def)
  have r: "results (sortResults (\<lambda>a b. 0) ''issued'' ''ASC'' db_numbers) =
     [issued ''b'' (JNum 1), issued ''d'' (JNum 1), issued ''c'' (JNum 2), issued ''a'' (JNum 3)]"
    by code_simp
  have z: "issued ''b'' (JNum 1) \<in> set (results db_numbers)"
    by (simp add: db_numbers_def)
  from sort_stable_when_consistent
    [where key = "''issued''" and lc = "\<lambda>a b. 0" and ?ord0.0 = "''ASC''" and db = db_numbers] c
  have "sorted_wrt (\<lambda>u v. ?cmp u v \<le> 0) (results (sortResults (\<lambda>a b. 0) ''issued'' ''ASC'' db_numbers)) \<and>
      (\<forall>z\<in>set (results db_numbers).
         filter (\<lambda>y. ?cmp z y = 0) (results (sortResults (\<lambda>a b. 0) ''issued'' ''ASC'' db_numbers)) =
         filter (\<lambda>y. ?cmp z y = 0) (results db_numbers))"
    by blast
  with c r z show ?thesis
    by blast
qed

text \<open>
  Six results with the values 8, 9, 10, 7, \<open>null\<close>, 1 under \<open>issued\<close>: the record
  without a value stands before the record with the value 1, the comparison of the two
  is 0, and after the sort it stands behind it.
\<close>

theorem null_pair_reordered_counterexample:
  "results db_null =
     [issued ''a'' (JNum 8), issued ''b'' (JNum 9), issued ''c'' (JNum 10), issued ''d'' (JNum 7),
      issued ''e'' JNull, issued ''f'' (JNum 1)] \<and>
   get_field (issued ''e'' JNull) ''issued'' = JNull \<and>
   sort_compare (\<lambda>a b. 0) ''issued'' ''asc'' (issued ''e'' JNull) (issued ''f'' (JNum 1)) = 0 \<and>
   results (sortResults (\<lambda>a b. 0) ''issued'' ''asc'' db_null) =
     [issued ''f'' (JNum 1), issued ''d'' (JNum 7), issued ''a'' (JNum 8), issued ''b'' (JNum 9),
      issued ''c'' (JNum 10), issued ''e'' JNull]"
  by code_simp

text \<open>
  Eight results with the values 2, 1, 1, 1, \<open>null\<close>, 1, 1, \<open>null\<close>: the records \<open>f\<close>
  and \<open>g\<close> have the same value, and after the sort \<open>g\<close> stands before \<open>f\<close>.
\<close>

lemma equal_values_reordered:
  "results (sortResults (\<lambda>a b. 0) ''issued'' ''asc'' db_equal) =
     [issued ''b'' (JNum 1), issued ''c'' (JNum 1), issued ''d'' (JNum 1), issued ''g'' (JNum 1),
      issued ''a'' (JNum 2), issued ''e'' JNull, issued ''f'' (JNum 1), issued ''h'' JNull]"
  by code_simp

end
